theory Spec2Isabelle
  imports Complex_Main "HOL-Library.Char_ord" "HOL-Library.Log_Nat"
begin

section \<open>Bytes, pointers and faults\<close>

text \<open>
  The export code of pspg (\<^verbatim>\<open>src/export.c\<close>) works on C strings. A C \<^verbatim>\<open>char\<close> is a
  byte, modelled by \<^typ>\<open>char\<close>; a \<^verbatim>\<open>char *\<close> is either the null pointer or a pointer
  into an object, modelled by the bytes that are readable from the pointer on (up to the
  end of the object it points into). Reading through the null pointer or beyond the last
  byte of the object is undefined in C; the model returns a fault there.

  All comparisons of a \<^verbatim>\<open>char\<close> against the ASCII ranges \<^verbatim>\<open>'a'..'z'\<close> and
  \<^verbatim>\<open>'0'..'9'\<close> in the source come out the same whether \<^verbatim>\<open>char\<close> is signed or not,
  so the unsigned order on bytes is used. C \<^verbatim>\<open>int\<close> values are modelled by \<^typ>\<open>int\<close>:
  lengths, columns and row numbers of a rendered table stay far below \<open>2^31\<close>. The one
  place where the caller decides the size of the numbers is the row arithmetic of
  \<^verbatim>\<open>export_data\<close> for the top and bottom requests (lines 763-771); there every operation
  is written with its 32-bit wrap-around and the \<^verbatim>\<open>double\<close> arithmetic with its rounding.
\<close>

datatype fault = NullDeref | OutOfBounds | BadPointerArith

datatype cptr = NullP | Ptr string

text \<open>The result pointer of a quoting routine, as its caller tells the cases apart:
  the routine's own argument \<^verbatim>\<open>str\<close>, the null pointer, or a buffer obtained from the
  allocator during the call (with the bytes it holds on return).\<close>

datatype qptr = Same | RNull | Fresh string

definition NUL :: char where "NUL = CHR 0x00"
definition TAB :: char where "TAB = CHR 0x09"
definition LF :: char where "LF = CHR 0x0A"
definition CR :: char where "CR = CHR 0x0D"
definition DQUOTE :: char where "DQUOTE = CHR 0x22"
definition SQUOTE :: char where "SQUOTE = CHR 0x27"

text \<open>The three bytes \<^verbatim>\<open>"\342\210\205"\<close>: the UTF-8 encoding of the empty-set glyph that
  the table renderer shows for a NULL value.\<close>

definition null_glyph :: string where
  "null_glyph = [CHR 0xE2, CHR 0x88, CHR 0x85]"

text \<open>\<^verbatim>\<open>p[i]\<close> as a read.\<close>

definition peek :: "cptr \<Rightarrow> int \<Rightarrow> fault + char" where
  "peek p i =
     (case p of
        NullP \<Rightarrow> Inl NullDeref
      | Ptr s \<Rightarrow> if 0 \<le> i \<and> i < int (length s) then Inr (s ! nat i) else Inl OutOfBounds)"

text \<open>\<^verbatim>\<open>buf[i] = c\<close> as a write into an allocated buffer.\<close>

definition poke :: "string \<Rightarrow> int \<Rightarrow> char \<Rightarrow> fault + string" where
  "poke buf i c =
     (if 0 \<le> i \<and> i < int (length buf) then Inr (buf[nat i := c]) else Inl OutOfBounds)"

text \<open>\<^verbatim>\<open>p + i\<close> for a pointer that stays inside its object.\<close>

definition ptr_add :: "cptr \<Rightarrow> int \<Rightarrow> fault + cptr" where
  "ptr_add p i =
     (case p of
        NullP \<Rightarrow> Inl BadPointerArith
      | Ptr s \<Rightarrow> if 0 \<le> i \<and> i \<le> int (length s) then Inr (Ptr (drop (nat i) s))
                 else Inl BadPointerArith)"

text \<open>\<^verbatim>\<open>strncmp(p + i, lit, n) == 0\<close> for a literal \<open>lit\<close> of exactly \<open>n\<close> bytes, none
  of them NUL (the only way the source calls it): the bytes are compared in order and
  the comparison stops at the first difference.\<close>

fun strncmp_eq :: "cptr \<Rightarrow> int \<Rightarrow> string \<Rightarrow> fault + bool" where
  "strncmp_eq p i [] = Inr True"
| "strncmp_eq p i (c # cs) =
     (case peek p i of
        Inl e \<Rightarrow> Inl e
      | Inr b \<Rightarrow> if b = c then strncmp_eq p (i + 1) cs else Inr False)"

declare strncmp_eq.simps [simp del]

text \<open>Modelled from the spec: \<^verbatim>\<open>utf8charlen\<close> (\<^verbatim>\<open>unicode.c\<close> is not among the sources),
  the byte length of one UTF-8 character, read off the leading bits of its first byte:
  1 for \<^verbatim>\<open>0xxxxxxx\<close>, 2 for \<^verbatim>\<open>110xxxxx\<close>, 3 for \<^verbatim>\<open>1110xxxx\<close>, 4 for \<^verbatim>\<open>1111xxxx\<close>, and 1
  for a byte \<^verbatim>\<open>10xxxxxx\<close>, which does not start a character. The theorems below use of it
  only that the length is at least 1, and that it is 1 for ASCII.\<close>

definition utf8charlen :: "char \<Rightarrow> int" where
  "utf8charlen ch =
     (let b = (of_char ch :: nat) in
      if b < 0x80 then 1
      else if 0xF0 \<le> b then 4
      else if 0xE0 \<le> b then 3
      else if 0xC0 \<le> b then 2
      else 1)"

text \<open>Modelled from the spec: \<^verbatim>\<open>sstrdup\<close> (the duplication helper is not among the
  sources): a new buffer holding the bytes of the literal and the terminating NUL.\<close>

definition sstrdup :: "string \<Rightarrow> string" where
  "sstrdup lit = lit @ [NUL]"

section \<open>The quoting loop shared by the three quoting routines\<close>

text \<open>\<^verbatim>\<open>while (size--) *ptr++ = *str++;\<close> with \<open>j\<close> the offset of \<^verbatim>\<open>str\<close> in the field's
  object and \<open>p\<close> the offset of \<^verbatim>\<open>ptr\<close> in the output buffer.\<close>

fun copy_chars :: "cptr \<Rightarrow> int \<Rightarrow> string \<Rightarrow> int \<Rightarrow> nat \<Rightarrow> fault + (int \<times> string \<times> int)" where
  "copy_chars str j buf p 0 = Inr (j, buf, p)"
| "copy_chars str j buf p (Suc k) =
     (case peek str j of
        Inl e \<Rightarrow> Inl e
      | Inr c \<Rightarrow>
          (case poke buf p c of
             Inl e \<Rightarrow> Inl e
           | Inr buf' \<Rightarrow> copy_chars str (j + 1) buf' (p + 1) k))"

text \<open>\<^verbatim>\<open>int size = force8bit ? 1 : utf8charlen(*ptr);\<close> In all three routines \<^verbatim>\<open>ptr\<close> is
  the write position in the output buffer here, not the read position: the byte it reads
  is the one the allocator left at that place.\<close>

definition out_charlen :: "bool \<Rightarrow> string \<Rightarrow> int \<Rightarrow> fault + int" where
  "out_charlen f8 buf p =
     (if f8 then Inr 1
      else (case peek (Ptr buf) p of Inl e \<Rightarrow> Inl e | Inr b \<Rightarrow> Inr (utf8charlen b)))"

text \<open>\<^verbatim>\<open>if (*str == q) *ptr++ = q;\<close> for the byte \<open>c\<close> read from \<^verbatim>\<open>str\<close>.\<close>

definition dup_quote :: "char \<Rightarrow> char \<Rightarrow> string \<Rightarrow> int \<Rightarrow> fault + (string \<times> int)" where
  "dup_quote q c buf p =
     (if c = q then (case poke buf p q of Inl e \<Rightarrow> Inl e | Inr b \<Rightarrow> Inr (b, p + 1))
      else Inr (buf, p))"

text \<open>The copy loop of \<^verbatim>\<open>csv_format\<close>, \<^verbatim>\<open>quote_sql_identifier\<close> and
  \<^verbatim>\<open>quote_sql_literal\<close> (lines 79-91, 152-164, 247-259), which differ in the quote
  character \<open>q\<close> only. \<open>slen'\<close> is the local \<^verbatim>\<open>_slen\<close>, \<open>slen\<close> is \<^verbatim>\<open>*slen\<close>.\<close>

function quote_loop ::
  "char \<Rightarrow> bool \<Rightarrow> cptr \<Rightarrow> int \<Rightarrow> string \<Rightarrow> int \<Rightarrow> int \<Rightarrow> int \<Rightarrow> fault + (string \<times> int \<times> int)" where
  "quote_loop q f8 str j buf p slen' slen =
     (if slen' > 0 then
        (case out_charlen f8 buf p of
           Inl e \<Rightarrow> Inl e
         | Inr sz \<Rightarrow>
             (case peek str j of
                Inl e \<Rightarrow> Inl e
              | Inr c \<Rightarrow>
                  (case dup_quote q c buf p of
                     Inl e \<Rightarrow> Inl e
                   | Inr (buf1, p1) \<Rightarrow>
                       (case copy_chars str j buf1 p1 (nat sz) of
                          Inl e \<Rightarrow> Inl e
                        | Inr (j2, buf2, p2) \<Rightarrow>
                            quote_loop q f8 str j2 buf2 p2 (slen' - sz) (slen + sz)))))
      else Inr (buf, p, slen))"
  by pat_completeness auto

lemma utf8charlen_pos: "1 \<le> utf8charlen ch"
  by (simp add: utf8charlen_def Let_def)

lemma utf8charlen_gt0: "0 < utf8charlen ch"
  by (simp add: utf8charlen_def Let_def)

lemma out_charlen_pos: "out_charlen f8 buf p = Inr sz \<Longrightarrow> 1 \<le> sz"
  using utf8charlen_pos by (auto simp: out_charlen_def split: if_splits sum.splits)

termination quote_loop
  by (relation "measure (\<lambda>(q, f8, str, j, buf, p, slen', slen). nat slen')")
     (auto dest: out_charlen_pos)

declare quote_loop.simps [simp del]

text \<open>The tail of the three routines: opening quote, copy loop, closing quote,
  terminating NUL, and the final \<^verbatim>\<open>*slen += 1\<close> (lines 72-97, 144-170, 239-265).
  The buffer comes from \<^verbatim>\<open>smalloc2\<close>, which is not among the sources: it is a
  parameter. \<open>smalloc2 n i\<close> is the byte that the buffer returned for a request of \<open>n\<close>
  bytes holds at offset \<open>i\<close> before anything is written to it. (When memory is exhausted
  the helper ends the process and does not return; the model follows the runs in which
  it returns.)\<close>

definition fresh_buffer :: "(int \<Rightarrow> nat \<Rightarrow> char) \<Rightarrow> int \<Rightarrow> string" where
  "fresh_buffer smalloc2 n = map (smalloc2 n) [0..<nat n]"

definition quote_wrap ::
  "(int \<Rightarrow> nat \<Rightarrow> char) \<Rightarrow> char \<Rightarrow> bool \<Rightarrow> cptr \<Rightarrow> int \<Rightarrow> fault + (qptr \<times> int)" where
  "quote_wrap smalloc2 q f8 str slen =
     (case poke (fresh_buffer smalloc2 (slen * 2 + 2 + 1)) 0 q of
        Inl e \<Rightarrow> Inl e
      | Inr buf1 \<Rightarrow>
          (case quote_loop q f8 str 0 buf1 1 slen 1 of
             Inl e \<Rightarrow> Inl e
           | Inr (buf2, p, slen2) \<Rightarrow>
               (case poke buf2 p q of
                  Inl e \<Rightarrow> Inl e
                | Inr buf3 \<Rightarrow>
                    (case poke buf3 (p + 1) NUL of
                       Inl e \<Rightarrow> Inl e
                     | Inr buf4 \<Rightarrow> Inr (Fresh buf4, slen2 + 1)))))"

section \<open>csv_format\<close>

text \<open>The scan of lines 51-67: does the field hold a character that needs quoting?\<close>

function csv_scan :: "bool \<Rightarrow> cptr \<Rightarrow> int \<Rightarrow> int \<Rightarrow> fault + bool" where
  "csv_scan f8 str i slen' =
     (if slen' > 0 then
        (case peek str i of
           Inl e \<Rightarrow> Inl e
         | Inr c \<Rightarrow>
             if c = DQUOTE \<or> c = CHR '','' \<or> c = TAB \<or> c = CR \<or> c = LF then Inr True
             else csv_scan f8 str (i + (if f8 then 1 else utf8charlen c))
                                  (slen' - (if f8 then 1 else utf8charlen c)))
      else Inr False)"
  by pat_completeness auto

termination csv_scan
  by (relation "measure (\<lambda>(f8, str, i, slen'). nat slen')")
     (auto simp: utf8charlen_gt0)

declare csv_scan.simps [simp del]

definition csv_format ::
  "(int \<Rightarrow> nat \<Rightarrow> char) \<Rightarrow> cptr \<Rightarrow> int \<Rightarrow> bool \<Rightarrow> bool \<Rightarrow> fault + (qptr \<times> int)" where
  "csv_format smalloc2 str slen f8 empty_string_is_null =
     (case (if \<not> f8 \<and> slen = 3 then strncmp_eq str 0 null_glyph else Inr False) of
        Inl e \<Rightarrow> Inl e
      | Inr True \<Rightarrow> Inr (RNull, 0)
      | Inr False \<Rightarrow>
          if slen = 0 then
            (if empty_string_is_null then Inr (RNull, slen)
             else Inr (Fresh (sstrdup [DQUOTE, DQUOTE]), 2))
          else
            (case csv_scan f8 str 0 slen of
               Inl e \<Rightarrow> Inl e
             | Inr needs_quoting \<Rightarrow>
                 if \<not> needs_quoting then Inr (Same, slen)
                 else quote_wrap smalloc2 DQUOTE f8 str slen))"

section \<open>quote_sql_identifier\<close>

text \<open>The scan of lines 121-138. The loop condition reads \<^verbatim>\<open>*ptr\<close> before it looks at
  \<^verbatim>\<open>_slen\<close>.\<close>

function ident_scan :: "bool \<Rightarrow> cptr \<Rightarrow> int \<Rightarrow> int \<Rightarrow> fault + bool" where
  "ident_scan f8 str i slen' =
     (case peek str i of
        Inl e \<Rightarrow> Inl e
      | Inr c \<Rightarrow>
          if c \<noteq> NUL \<and> slen' > 0 then
            (if \<not> ((CHR ''a'' \<le> c \<and> c \<le> CHR ''z'') \<or>
                    (CHR ''0'' \<le> c \<and> c \<le> CHR ''9'') \<or>
                    c = CHR ''_'')
             then Inr True
             else ident_scan f8 str (i + (if f8 then 1 else utf8charlen c))
                                    (slen' - (if f8 then 1 else utf8charlen c)))
          else Inr False)"
  by pat_completeness auto

termination ident_scan
  by (relation "measure (\<lambda>(f8, str, i, slen'). nat slen')")
     (auto simp: utf8charlen_gt0)

declare ident_scan.simps [simp del]

text \<open>Lines 103-171. The first statement reads \<^verbatim>\<open>*str\<close>; the test \<^verbatim>\<open>!str\<close> comes
  after it.\<close>

definition quote_sql_identifier ::
  "(int \<Rightarrow> nat \<Rightarrow> char) \<Rightarrow> cptr \<Rightarrow> int \<Rightarrow> bool \<Rightarrow> fault + (qptr \<times> int)" where
  "quote_sql_identifier smalloc2 str slen f8 =
     (case peek str 0 of
        Inl e \<Rightarrow> Inl e
      | Inr c0 \<Rightarrow>
          if c0 = DQUOTE then Inr (Same, slen)
          else if str = NullP \<or> c0 = NUL \<or> slen = 0 then Inr (Same, slen)
          else
            (case (if c0 \<noteq> CHR '' '' \<and> (c0 < CHR ''a'' \<or> c0 > CHR ''z'') then Inr True
                   else ident_scan f8 str 0 slen) of
               Inl e \<Rightarrow> Inl e
             | Inr needs_quoting \<Rightarrow>
                 if \<not> needs_quoting then Inr (Same, slen)
                 else quote_wrap smalloc2 DQUOTE f8 str slen))"

section \<open>quote_sql_literal\<close>

text \<open>The scan of lines 212-234, with the flag \<^verbatim>\<open>has_dot\<close>.\<close>

function literal_scan :: "bool \<Rightarrow> cptr \<Rightarrow> int \<Rightarrow> int \<Rightarrow> bool \<Rightarrow> fault + bool" where
  "literal_scan f8 str i slen' has_dot =
     (case peek str i of
        Inl e \<Rightarrow> Inl e
      | Inr c \<Rightarrow>
          if c \<noteq> NUL \<and> slen' > 0 then
            (if c = CHR ''.'' then
               (if has_dot then Inr True
                else literal_scan f8 str (i + (if f8 then 1 else utf8charlen c))
                                        (slen' - (if f8 then 1 else utf8charlen c)) True)
             else if \<not> (CHR ''0'' \<le> c \<and> c \<le> CHR ''9'') then Inr True
             else literal_scan f8 str (i + (if f8 then 1 else utf8charlen c))
                                     (slen' - (if f8 then 1 else utf8charlen c)) has_dot)
          else Inr False)"
  by pat_completeness auto

termination literal_scan
  by (relation "measure (\<lambda>(f8, str, i, slen', has_dot). nat slen')")
     (auto simp: utf8charlen_gt0)

declare literal_scan.simps [simp del]

text \<open>\<^verbatim>\<open>strncmp(str, "NULL", *slen) == 0 || strncmp(str, "null", *slen) == 0\<close> for
  \<^verbatim>\<open>*slen == 4\<close>.\<close>

definition is_null_word :: "cptr \<Rightarrow> fault + bool" where
  "is_null_word str =
     (case strncmp_eq str 0 ''NULL'' of
        Inl e \<Rightarrow> Inl e
      | Inr True \<Rightarrow> Inr True
      | Inr False \<Rightarrow> strncmp_eq str 0 ''null'')"

text \<open>Lines 173-266.\<close>

definition quote_sql_literal ::
  "(int \<Rightarrow> nat \<Rightarrow> char) \<Rightarrow> cptr \<Rightarrow> int \<Rightarrow> bool \<Rightarrow> bool \<Rightarrow> fault + (qptr \<times> int)" where
  "quote_sql_literal smalloc2 str slen f8 empty_string_is_null =
     (if slen = 0 then
        (if empty_string_is_null then Inr (Fresh (sstrdup ''NULL''), 4)
         else Inr (Fresh (sstrdup [SQUOTE, SQUOTE]), 2))
      else
        (case (if slen = 4 then is_null_word str else Inr False) of
           Inl e \<Rightarrow> Inl e
         | Inr True \<Rightarrow> Inr (Same, slen)
         | Inr False \<Rightarrow>
             (case (if \<not> f8 \<and> slen = 3 then strncmp_eq str 0 null_glyph else Inr False) of
                Inl e \<Rightarrow> Inl e
              | Inr True \<Rightarrow> Inr (Fresh (sstrdup ''NULL''), 4)
              | Inr False \<Rightarrow>
                  (case literal_scan f8 str 0 slen False of
                     Inl e \<Rightarrow> Inl e
                   | Inr needs_quoting \<Rightarrow>
                       if \<not> needs_quoting then Inr (Same, slen)
                       else quote_wrap smalloc2 SQUOTE f8 str slen))))"

section \<open>trim_str\<close>

text \<open>The first loop of \<^verbatim>\<open>trim_str\<close> (lines 340-344); \<open>i\<close> is the offset of \<^verbatim>\<open>str\<close>.
  The byte is read before the size is looked at.\<close>

function trim_lead :: "cptr \<Rightarrow> int \<Rightarrow> int \<Rightarrow> fault + (int \<times> int)" where
  "trim_lead str i sz =
     (case peek str i of
        Inl e \<Rightarrow> Inl e
      | Inr c \<Rightarrow> if c = CHR '' '' \<and> sz > 0 then trim_lead str (i + 1) (sz - 1) else Inr (i, sz))"
  by pat_completeness auto

termination trim_lead
  by (relation "measure (\<lambda>(str, i, sz). nat sz)") auto

declare trim_lead.simps [simp del]

text \<open>The second loop (lines 352-361); the result is \<^verbatim>\<open>after_nspc_chr\<close> as an offset,
  or \<open>None\<close> while it is still the null pointer.\<close>

function trim_tail :: "bool \<Rightarrow> cptr \<Rightarrow> int \<Rightarrow> int \<Rightarrow> int option \<Rightarrow> fault + int option" where
  "trim_tail f8 str i sz after_nspc_chr =
     (if sz > 0 then
        (case peek str i of
           Inl e \<Rightarrow> Inl e
         | Inr c \<Rightarrow>
             trim_tail f8 str (i + (if f8 then 1 else utf8charlen c))
                              (sz - (if f8 then 1 else utf8charlen c))
                              (if c \<noteq> CHR '' '' then Some (i + (if f8 then 1 else utf8charlen c))
                               else after_nspc_chr))
      else Inr after_nspc_chr)"
  by pat_completeness auto

termination trim_tail
  by (relation "measure (\<lambda>(f8, str, i, sz, a). nat sz)")
     (auto simp: utf8charlen_gt0)

declare trim_tail.simps [simp del]

text \<open>Lines 335-367. The result is the null pointer or a pointer into the same object as
  \<^verbatim>\<open>str\<close>, with the new size.\<close>

definition trim_str :: "cptr \<Rightarrow> int \<Rightarrow> bool \<Rightarrow> fault + (cptr \<times> int)" where
  "trim_str str sz f8 =
     (case trim_lead str 0 sz of
        Inl e \<Rightarrow> Inl e
      | Inr (k, sz1) \<Rightarrow>
          if sz1 > 0 then
            (case trim_tail f8 str k sz1 None of
               Inl e \<Rightarrow> Inl e
             | Inr None \<Rightarrow> Inl BadPointerArith
             | Inr (Some a) \<Rightarrow>
                 (case ptr_add str k of
                    Inl e \<Rightarrow> Inl e
                  | Inr result \<Rightarrow> Inr (result, a - k)))
          else Inr (NullP, sz1))"


section \<open>The export state and what the code takes from outside\<close>

text \<open>Modelled from the spec: the enumeration \<^verbatim>\<open>ClipboardFormat\<close> and the macros
  \<^verbatim>\<open>INSERT_FORMAT_TYPE\<close> and \<^verbatim>\<open>DSV_FORMAT_TYPE\<close> (declared in \<^verbatim>\<open>pspg.h\<close>, which is not
  among the sources): plain text, CSV, TSV, and SQL \<^verbatim>\<open>INSERT\<close> statements, terse or
  commented.\<close>

datatype ClipboardFormat =
    CLIPBOARD_FORMAT_CSV
  | CLIPBOARD_FORMAT_TSVC
  | CLIPBOARD_FORMAT_TEXT
  | CLIPBOARD_FORMAT_INSERT
  | CLIPBOARD_FORMAT_INSERT_WITH_COMMENTS

definition INSERT_FORMAT_TYPE :: "ClipboardFormat \<Rightarrow> bool" where
  "INSERT_FORMAT_TYPE f =
     (f = CLIPBOARD_FORMAT_INSERT \<or> f = CLIPBOARD_FORMAT_INSERT_WITH_COMMENTS)"

definition DSV_FORMAT_TYPE :: "ClipboardFormat \<Rightarrow> bool" where
  "DSV_FORMAT_TYPE f = (f = CLIPBOARD_FORMAT_CSV \<or> f = CLIPBOARD_FORMAT_TSVC)"

text \<open>The struct \<^verbatim>\<open>ExportState\<close> (lines 315-330). The output stream \<^verbatim>\<open>fp\<close> is of an
  arbitrary type \<open>'f\<close>. \<^verbatim>\<open>colnames\<close> is a \<^verbatim>\<open>char **\<close>: the null pointer, or an array of
  string pointers.\<close>

record 'f ExportState =
  fp :: 'f
  format :: ClipboardFormat
  xmin :: int
  xmax :: int
  copy_line_extended :: bool
  table_name :: cptr
  columns :: int
  force8bit :: bool
  empty_string_is_null :: bool
  colno :: int
  colnames :: "cptr list option"

text \<open>Functions that the code calls and that are not among the sources, as parameters:
  \<^item> \<open>h_smalloc2\<close>: the bytes found in a buffer returned by \<^verbatim>\<open>smalloc2\<close> (see
    \<^const>\<open>fresh_buffer\<close>);
  \<^item> \<open>h_write\<close>: the C library writing bytes to the stream (\<^verbatim>\<open>fputs\<close>, \<^verbatim>\<open>fputc\<close>,
    \<^verbatim>\<open>fprintf\<close>, \<^verbatim>\<open>fwrite\<close>): it gives the stream after the call and the value the call
    stored in \<^verbatim>\<open>errno\<close>, with 0 when it left \<^verbatim>\<open>errno\<close> alone;
  \<^item> \<open>h_utf_dsplen\<close>: \<^verbatim>\<open>utf_dsplen\<close>, the display width of the character at the start of
    the bytes;
  \<^item> \<open>h_utf_string_dsplen\<close>: \<^verbatim>\<open>utf_string_dsplen\<close>, the display width of a string.\<close>

record 'f helpers =
  h_smalloc2 :: "int \<Rightarrow> nat \<Rightarrow> char"
  h_write :: "'f \<Rightarrow> string \<Rightarrow> 'f \<times> int"
  h_utf_dsplen :: "string \<Rightarrow> int"
  h_utf_string_dsplen :: "string \<Rightarrow> int"

text \<open>One call of the C library that writes \<open>bytes\<close> to \<^verbatim>\<open>expstate->fp\<close>. The state that
  \<^verbatim>\<open>process_item\<close> works on is the export state together with \<^verbatim>\<open>errno\<close>.\<close>

definition out ::
  "'f helpers \<Rightarrow> 'f ExportState \<times> int \<Rightarrow> string \<Rightarrow> 'f ExportState \<times> int" where
  "out h st bytes =
     (case h_write h (fp (fst st)) bytes of
        (fp', e) \<Rightarrow> ((fst st)\<lparr>fp := fp'\<rparr>, if e = 0 then snd st else e))"

text \<open>The C string at a pointer: the bytes before the first NUL. A string that is not
  terminated inside its object is read beyond it.\<close>

definition c_str :: "cptr \<Rightarrow> fault + string" where
  "c_str p =
     (case p of
        NullP \<Rightarrow> Inl NullDeref
      | Ptr s \<Rightarrow> if NUL \<in> set s then Inr (takeWhile (\<lambda>c. c \<noteq> NUL) s) else Inl OutOfBounds)"

text \<open>The \<open>n\<close> bytes at a pointer, as \<^verbatim>\<open>fwrite(p, n, 1, fp)\<close> reads them. Nothing is read
  when \<open>n\<close> is 0.\<close>

definition read_bytes :: "cptr \<Rightarrow> int \<Rightarrow> fault + string" where
  "read_bytes p n =
     (if n = 0 then Inr []
      else (case p of
              NullP \<Rightarrow> Inl NullDeref
            | Ptr s \<Rightarrow> if 0 < n \<and> n \<le> int (length s) then Inr (take (nat n) s)
                       else Inl OutOfBounds))"

text \<open>Modelled from the spec: \<^verbatim>\<open>sstrndup\<close> (the duplication helper is not among the
  sources): a new buffer with the bytes of the string at \<open>p\<close>, at most \<open>n\<close> of them, and
  the terminating NUL.\<close>

definition sstrndup :: "cptr \<Rightarrow> int \<Rightarrow> fault + string" where
  "sstrndup p n =
     (case p of
        NullP \<Rightarrow> Inl NullDeref
      | Ptr s \<Rightarrow>
          if NUL \<in> set (take (nat n) s) \<or> n \<le> int (length s)
          then Inr (takeWhile (\<lambda>c. c \<noteq> NUL) (take (nat n) s) @ [NUL])
          else Inl OutOfBounds)"

text \<open>\<^verbatim>\<open>colnames[i]\<close> as a read and as a write.\<close>

definition aget :: "cptr list option \<Rightarrow> int \<Rightarrow> fault + cptr" where
  "aget arr i =
     (case arr of
        None \<Rightarrow> Inl NullDeref
      | Some ps \<Rightarrow> if 0 \<le> i \<and> i < int (length ps) then Inr (ps ! nat i) else Inl OutOfBounds)"

definition aset :: "cptr list option \<Rightarrow> int \<Rightarrow> cptr \<Rightarrow> fault + cptr list option" where
  "aset arr i p =
     (case arr of
        None \<Rightarrow> Inl NullDeref
      | Some ps \<Rightarrow> if 0 \<le> i \<and> i < int (length ps) then Inr (Some (ps[nat i := p]))
                   else Inl OutOfBounds)"

text \<open>The conversion \<^verbatim>\<open>%d\<close> of \<^verbatim>\<open>fprintf\<close>.\<close>

function show_nat :: "nat \<Rightarrow> string" where
  "show_nat n =
     (if n < 10 then [''0123456789'' ! n]
      else show_nat (n div 10) @ [''0123456789'' ! (n mod 10)])"
  by pat_completeness auto

termination show_nat
  by (relation "measure id") auto

declare show_nat.simps [simp del]

definition printf_d :: "int \<Rightarrow> string" where
  "printf_d i = (if i < 0 then CHR ''-'' # show_nat (nat (- i)) else show_nat (nat i))"

text \<open>The pointer a quoting routine returned, given the pointer it was called with, and
  the comparison \<^verbatim>\<open>_field != field\<close> of the two.\<close>

definition resolve :: "cptr \<Rightarrow> qptr \<Rightarrow> cptr" where
  "resolve field q = (case q of Same \<Rightarrow> field | RNull \<Rightarrow> NullP | Fresh buf \<Rightarrow> Ptr buf)"

definition differs :: "cptr \<Rightarrow> qptr \<Rightarrow> bool" where
  "differs field q = (case q of Same \<Rightarrow> False | RNull \<Rightarrow> field \<noteq> NullP | Fresh buf \<Rightarrow> True)"

text \<open>The bytes that \<^verbatim>\<open>%.*s\<close> prints for a precision \<open>n\<close> and a string pointer: the bytes
  of the string, at most \<open>n\<close> of them; a negative precision counts as none given. With the
  precision 0 nothing is printed and no byte is read, whatever the pointer: this is how
  line 629 gets by with the null pointer that \<^verbatim>\<open>csv_format\<close> returns together with the
  length 0.\<close>

definition strn :: "cptr \<Rightarrow> int \<Rightarrow> fault + string" where
  "strn p n =
     (if n = 0 then Inr []
      else if n < 0 then c_str p
      else (case sstrndup p n of Inl e \<Rightarrow> Inl e | Inr b \<Rightarrow> Inr (butlast b)))"

section \<open>process_item: the SQL INSERT formats\<close>

text \<open>The loop of lines 439-452 over the captured column names; \<open>names\<close> and \<open>cols\<close> are
  \<^verbatim>\<open>expstate->colnames\<close> and \<^verbatim>\<open>expstate->columns\<close>, which the loop does not change.\<close>

function insert_names ::
  "'f helpers \<Rightarrow> cptr list option \<Rightarrow> int \<Rightarrow> 'f ExportState \<times> int \<Rightarrow> int \<Rightarrow> bool \<Rightarrow>
   fault + ('f ExportState \<times> int)" where
  "insert_names h names cols st i is_first =
     (if i < cols then
        (case aget names i of
           Inl e \<Rightarrow> Inl e
         | Inr nm \<Rightarrow>
             if nm \<noteq> NullP then
               (case c_str nm of
                  Inl e \<Rightarrow> Inl e
                | Inr s \<Rightarrow>
                    insert_names h names cols
                      (out h (if \<not> is_first then out h st '', '' else st) s) (i + 1) False)
             else Inr st)
      else Inr st)"
  by pat_completeness auto

termination insert_names
  by (relation "measure (\<lambda>(h, names, cols, st, i, is_first). nat (cols - i))") auto

declare insert_names.simps [simp del]

text \<open>The loop of lines 467-473: the number of column names captured.\<close>

function count_names :: "cptr list option \<Rightarrow> int \<Rightarrow> int \<Rightarrow> int \<Rightarrow> fault + int" where
  "count_names names cols i n =
     (if i < cols then
        (case aget names i of
           Inl e \<Rightarrow> Inl e
         | Inr nm \<Rightarrow> if nm \<noteq> NullP then count_names names cols (i + 1) (n + 1) else Inr n)
      else Inr n)"
  by pat_completeness auto

termination count_names
  by (relation "measure (\<lambda>(names, cols, i, n). nat (cols - i))") auto

declare count_names.simps [simp del]

text \<open>The loop of lines 475-493; \<open>cnt\<close> is the local \<^verbatim>\<open>columns\<close>.\<close>

function comment_names ::
  "'f helpers \<Rightarrow> cptr list option \<Rightarrow> int \<Rightarrow> int \<Rightarrow> int \<Rightarrow> 'f ExportState \<times> int \<Rightarrow> int \<Rightarrow> int \<Rightarrow>
   fault + ('f ExportState \<times> int)" where
  "comment_names h names cols indent_spaces cnt st i loc_colno =
     (if i < cols then
        (case aget names i of
           Inl e \<Rightarrow> Inl e
         | Inr nm \<Rightarrow>
             if nm \<noteq> NullP then
               (case c_str nm of
                  Inl e \<Rightarrow> Inl e
                | Inr s \<Rightarrow>
                    comment_names h names cols indent_spaces cnt
                      (out h
                         (out h
                            (if loc_colno > 0
                             then out h st (replicate (nat \<bar>indent_spaces\<bar>) (CHR '' ''))
                             else st)
                            s)
                         ((if loc_colno < cnt - 1 then '','' else '')'') @
                          [TAB, TAB] @ '' -- '' @ printf_d (loc_colno + 1) @ ''.'' @ [LF]))
                      (i + 1) (loc_colno + 1))
             else Inr st)
      else Inr st)"
  by pat_completeness auto

termination comment_names
  by (relation "measure (\<lambda>(h, names, cols, ind, cnt, st, i, l). nat (cols - i))") auto

declare comment_names.simps [simp del]

text \<open>Lines 423-501: the head of a statement, written before the first value of a row.\<close>

definition insert_header :: "'f helpers \<Rightarrow> 'f ExportState \<Rightarrow> fault + ('f ExportState \<times> int)" where
  "insert_header h es =
     (case c_str (table_name es) of
        Inl e \<Rightarrow> Inl e
      | Inr tn \<Rightarrow>
          (case (if colnames es \<noteq> None then
                   (if format es = CLIPBOARD_FORMAT_INSERT then
                      (case insert_names h (colnames es) (columns es)
                              (out h (out h (out h (es, 0) ''INSERT INTO '') tn) ''('') 0 True of
                         Inl e \<Rightarrow> Inl e
                       | Inr st \<Rightarrow> Inr (out h st '')''))
                    else
                      (case count_names (colnames es) (columns es) 0 0 of
                         Inl e \<Rightarrow> Inl e
                       | Inr cnt \<Rightarrow>
                           comment_names h (colnames es) (columns es)
                             (if force8bit es then int (length tn) + 1 + 12
                              else h_utf_string_dsplen h tn + 1 + 12)
                             cnt
                             (out h (out h (out h (es, 0) ''INSERT INTO '') tn) ''('') 0 0))
                 else Inr (out h (out h (es, 0) ''INSERT INTO '') tn)) of
             Inl e \<Rightarrow> Inl e
           | Inr st \<Rightarrow>
               Inr (out h st (if format es = CLIPBOARD_FORMAT_INSERT then '' VALUES(''
                              else ''   VALUES(''))))"

text \<open>Lines 412-417 and 597-602: the pointer that is stored as the name of a column.
  \<open>field\<close> is the trimmed field, \<open>q\<close> and \<open>sz\<close> are what the quoting routine returned for
  it: an empty string for a null result, the buffer of the routine if it made one, else a
  copy of the \<open>sz\<close> bytes of the field.\<close>

definition colname_value :: "cptr \<Rightarrow> qptr \<Rightarrow> int \<Rightarrow> fault + cptr" where
  "colname_value field q sz =
     (if resolve field q = NullP then Inr (Ptr (sstrdup ''''))
      else if differs field q then Inr (resolve field q)
      else (case sstrndup field sz of Inl e \<Rightarrow> Inl e | Inr b \<Rightarrow> Inr (Ptr b)))"

text \<open>Lines 403-419 and 591-604: the column name of a header cell is stored at the
  running column index, in the array of \<^verbatim>\<open>columns\<close> null pointers that is allocated when
  there is none yet.\<close>

definition store_colname ::
  "'f ExportState \<Rightarrow> cptr \<Rightarrow> qptr \<Rightarrow> int \<Rightarrow> fault + 'f ExportState" where
  "store_colname es field q sz =
     (case colname_value field q sz of
        Inl e \<Rightarrow> Inl e
      | Inr v \<Rightarrow>
          (case aset (if colnames es = None then Some (replicate (nat (columns es)) NullP)
                      else colnames es)
                     (colno es) v of
             Inl e \<Rightarrow> Inl e
           | Inr names \<Rightarrow> Inr (es\<lparr>colnames := names, colno := colno es + 1\<rparr>)))"

text \<open>Lines 401-420: a data token of a header row.\<close>

definition insert_colname ::
  "'f helpers \<Rightarrow> 'f ExportState \<Rightarrow> cptr \<Rightarrow> int \<Rightarrow> fault + (bool option \<times> 'f ExportState \<times> int)" where
  "insert_colname h es field sz =
     (case trim_str field sz (force8bit es) of
        Inl e \<Rightarrow> Inl e
      | Inr (field1, sz1) \<Rightarrow>
          (case quote_sql_identifier (h_smalloc2 h) field1 sz1 (force8bit es) of
             Inl e \<Rightarrow> Inl e
           | Inr (q, sz2) \<Rightarrow>
               (case store_colname es field1 q sz2 of
                  Inl e \<Rightarrow> Inl e
                | Inr es' \<Rightarrow> Inr (None, es', 0))))"

text \<open>Lines 503-516: what is written between two values of a row.\<close>

definition insert_separator ::
  "'f helpers \<Rightarrow> 'f ExportState \<Rightarrow> 'f ExportState \<times> int \<Rightarrow> fault + ('f ExportState \<times> int)" where
  "insert_separator h es st =
     (if format es = CLIPBOARD_FORMAT_INSERT then
        Inr (if colno es > 0 then out h st '', '' else st)
      else if colno es > 0 then
        (case aget (colnames es) (colno es - 1) of
           Inl e \<Rightarrow> Inl e
         | Inr nm \<Rightarrow>
             (case c_str nm of
                Inl e \<Rightarrow> Inl e
              | Inr name \<Rightarrow>
                  Inr (out h
                         (out h st ('','' @ [TAB, TAB] @ '' -- '' @ printf_d (colno es) @ ''. '' @
                                    name @ [LF]))
                         ''          '')))
      else Inr st)"

text \<open>Lines 423-516: what is written before a value: the head of the statement before
  the first value of a row, and the separator before every other.\<close>

definition insert_head ::
  "'f helpers \<Rightarrow> 'f ExportState \<Rightarrow> fault + ('f ExportState \<times> int)" where
  "insert_head h es =
     (case (if colno es = 0 then insert_header h es else Inr (es, 0)) of
        Inl e \<Rightarrow> Inl e
      | Inr st1 \<Rightarrow> insert_separator h es st1)"

text \<open>Lines 421-530: a data token of a row that is not a header row.\<close>

definition insert_value ::
  "'f helpers \<Rightarrow> 'f ExportState \<Rightarrow> cptr \<Rightarrow> int \<Rightarrow> fault + (bool option \<times> 'f ExportState \<times> int)" where
  "insert_value h es field sz =
     (case insert_head h es of
        Inl e \<Rightarrow> Inl e
      | Inr st2 \<Rightarrow>
          (case trim_str field sz (force8bit es) of
             Inl e \<Rightarrow> Inl e
           | Inr (field1, sz1) \<Rightarrow>
               (case quote_sql_literal (h_smalloc2 h) field1 sz1 (force8bit es)
                       (empty_string_is_null es) of
                  Inl e \<Rightarrow> Inl e
                | Inr (q, sz2) \<Rightarrow>
                    (case read_bytes (resolve field1 q) sz2 of
                       Inl e \<Rightarrow> Inl e
                     | Inr bytes \<Rightarrow>
                         (case out h st2 bytes of
                            (es3, errno3) \<Rightarrow>
                              Inr (None, es3\<lparr>colno := colno es3 + 1\<rparr>, errno3))))))"

text \<open>The test of lines 396-398, 546-548 and 576-578: the token lies outside the
  selected range of display columns.\<close>

definition outside_range :: "'f ExportState \<Rightarrow> int \<Rightarrow> bool" where
  "outside_range es xpos = (xmin es \<noteq> - 1 \<and> (xpos \<le> xmin es \<or> xmax es \<le> xpos))"

text \<open>Lines 377-532. The result says whether the function returned at once
  (\<open>Some True\<close> for \<^verbatim>\<open>return true\<close>) or went on to the test of \<^verbatim>\<open>errno\<close> at its end
  (\<open>None\<close>); it comes with the export state and \<^verbatim>\<open>errno\<close>.\<close>

definition process_item_insert ::
  "'f helpers \<Rightarrow> 'f ExportState \<Rightarrow> char \<Rightarrow> cptr \<Rightarrow> int \<Rightarrow> int \<Rightarrow> bool \<Rightarrow>
   fault + (bool option \<times> 'f ExportState \<times> int)" where
  "process_item_insert h es typ field sz xpos is_colname =
     (if typ = CHR ''N'' \<and> \<not> is_colname then
        (if format es = CLIPBOARD_FORMAT_INSERT then
           (case out h (es, 0) ('');'' @ [LF]) of (es', errno') \<Rightarrow> Inr (None, es', errno'))
         else
           (case aget (colnames es) (colno es - 1) of
              Inl e \<Rightarrow> Inl e
            | Inr nm \<Rightarrow>
                (case c_str nm of
                   Inl e \<Rightarrow> Inl e
                 | Inr name \<Rightarrow>
                     (case out h (es, 0)
                             ('');'' @ [TAB, TAB] @ '' -- '' @ printf_d (colno es) @ ''. '' @
                              name @ [LF]) of
                        (es', errno') \<Rightarrow> Inr (None, es', errno')))))
      else if typ = CHR ''d'' then
        (if outside_range es xpos then Inr (Some True, es, 0)
         else if is_colname then insert_colname h es field sz
         else insert_value h es field sz)
      else Inr (None, es, 0))"

section \<open>process_item: plain text, CSV and TSV\<close>

text \<open>Lines 537-556.\<close>

definition process_item_text ::
  "'f helpers \<Rightarrow> 'f ExportState \<Rightarrow> char \<Rightarrow> cptr \<Rightarrow> int \<Rightarrow> int \<Rightarrow>
   fault + (bool option \<times> 'f ExportState \<times> int)" where
  "process_item_text h es typ field sz xpos =
     (if typ \<noteq> CHR ''N'' then
        (if (typ = CHR ''I'' \<or> typ = CHR ''d'') \<and> outside_range es xpos then
           Inr (Some True, es, 0)
         else
           (case read_bytes field sz of
              Inl e \<Rightarrow> Inl e
            | Inr bytes \<Rightarrow>
                (case out h (es, 0) bytes of (es', errno') \<Rightarrow> Inr (None, es', errno'))))
      else (case out h (es, 0) [LF] of (es', errno') \<Rightarrow> Inr (None, es', errno')))"

text \<open>Lines 613-620: the separator before a value that is not the first of its row.\<close>

definition dsv_separator :: "'f helpers \<Rightarrow> 'f ExportState \<Rightarrow> 'f ExportState \<times> int" where
  "dsv_separator h es =
     (if colno es > 0 then
        (if format es = CLIPBOARD_FORMAT_CSV then out h (es, 0) '',''
         else if format es = CLIPBOARD_FORMAT_TSVC then out h (es, 0) [TAB]
         else (es, 0))
      else (es, 0))"

text \<open>Lines 609-640: a value is written, in a row of values or, in the extended mode, on
  a line of its own after the name of its column. \<open>field\<close> is the trimmed field, \<open>q\<close> and
  \<open>sz\<close> are what \<^verbatim>\<open>csv_format\<close> returned for it. \<^verbatim>\<open>errno\<close> is set to 0 first, and its value
  after the writes is the one the function ends with.\<close>

definition dsv_value ::
  "'f helpers \<Rightarrow> 'f ExportState \<Rightarrow> cptr \<Rightarrow> qptr \<Rightarrow> int \<Rightarrow> fault + ('f ExportState \<times> int)" where
  "dsv_value h es field q sz =
     (if \<not> copy_line_extended es then
        (case dsv_separator h es of
           (es1, errno1) \<Rightarrow>
             if resolve field q \<noteq> NullP \<and> errno1 = 0 then
               (case read_bytes (resolve field q) sz of
                  Inl e \<Rightarrow> Inl e
                | Inr bytes \<Rightarrow> Inr (out h (es1, 0) bytes))
             else Inr (es1, errno1))
      else
        (case aget (colnames es) (colno es) of
           Inl e \<Rightarrow> Inl e
         | Inr nm \<Rightarrow>
             (case c_str nm of
                Inl e \<Rightarrow> Inl e
              | Inr name \<Rightarrow>
                  (case strn (resolve field q) sz of
                     Inl e \<Rightarrow> Inl e
                   | Inr val \<Rightarrow> Inr (out h (es, 0) (name @ '','' @ val @ [LF]))))))"

text \<open>Lines 561-643. On the paths that do not set \<^verbatim>\<open>errno\<close> to 0, the value \<open>errno0\<close>
  that \<^verbatim>\<open>errno\<close> had at the call is the one the function goes on with.\<close>

definition process_item_dsv ::
  "'f helpers \<Rightarrow> 'f ExportState \<Rightarrow> int \<Rightarrow> char \<Rightarrow> cptr \<Rightarrow> int \<Rightarrow> int \<Rightarrow> bool \<Rightarrow>
   fault + (bool option \<times> 'f ExportState \<times> int)" where
  "process_item_dsv h es errno0 typ field sz xpos is_colname =
     (if typ = CHR ''N'' \<and> \<not> copy_line_extended es then
        (case out h (es, 0) [LF] of (es', errno') \<Rightarrow> Inr (None, es', errno'))
      else if typ = CHR ''d'' then
        (if outside_range es xpos then Inr (Some True, es, errno0)
         else
           (case trim_str field sz (force8bit es) of
              Inl e \<Rightarrow> Inl e
            | Inr (field1, sz1) \<Rightarrow>
                (case csv_format (h_smalloc2 h) field1 sz1 (force8bit es)
                        (empty_string_is_null es) of
                   Inl e \<Rightarrow> Inl e
                 | Inr (q, sz2) \<Rightarrow>
                     if copy_line_extended es \<and> is_colname then
                       (case store_colname es field1 q sz2 of
                          Inl e \<Rightarrow> Inl e
                        | Inr es' \<Rightarrow> Inr (Some True, es', errno0))
                     else
                       (case dsv_value h es field1 q sz2 of
                          Inl e \<Rightarrow> Inl e
                        | Inr (es', errno') \<Rightarrow>
                            Inr (None, es'\<lparr>colno := colno es' + 1\<rparr>, errno')))))
      else Inr (None, es, errno0))"

section \<open>process_item\<close>

text \<open>Lines 372-654. The result is the value returned, the export state and \<^verbatim>\<open>errno\<close>.
  (On a write error the function also records a message with \<^verbatim>\<open>format_error\<close> and
  \<^verbatim>\<open>log_row\<close>; the message is not part of the model.)\<close>

definition process_item ::
  "'f helpers \<Rightarrow> 'f ExportState \<Rightarrow> int \<Rightarrow> char \<Rightarrow> cptr \<Rightarrow> int \<Rightarrow> int \<Rightarrow> bool \<Rightarrow>
   fault + (bool \<times> 'f ExportState \<times> int)" where
  "process_item h es errno0 typ field sz xpos is_colname =
     (case (if INSERT_FORMAT_TYPE (format es) then
              process_item_insert h es typ field sz xpos is_colname
            else if format es = CLIPBOARD_FORMAT_TEXT then
              process_item_text h es typ field sz xpos
            else if DSV_FORMAT_TYPE (format es) then
              process_item_dsv h es errno0 typ field sz xpos is_colname
            else Inr (None, es, errno0)) of
        Inl e \<Rightarrow> Inl e
      | Inr (Some b, es', errno') \<Rightarrow> Inr (b, es', errno')
      | Inr (None, es', errno') \<Rightarrow> Inr (errno' = 0, es', errno'))"

section \<open>The iterator over a row and its headline\<close>

text \<open>\<^verbatim>\<open>p + i\<close> for an offset that lies inside the object.\<close>

definition at_offset :: "cptr \<Rightarrow> int \<Rightarrow> cptr" where
  "at_offset p i = (case p of NullP \<Rightarrow> NullP | Ptr s \<Rightarrow> Ptr (drop (nat i) s))"

text \<open>\<^verbatim>\<open>next_char\<close> (lines 279-313). The iterator is the row and the headline with the
  offsets \<open>i\<close> and \<open>j\<close> of \<^verbatim>\<open>iter->row\<close> and \<^verbatim>\<open>iter->headline\<close> in them, and \<^verbatim>\<open>iter->xpos\<close>.
  The result is \<open>None\<close> for a null result, or the type, size, width and position of the
  character together with the new offsets and the new \<^verbatim>\<open>iter->xpos\<close>; the pointer returned
  is the row at offset \<open>i\<close>.\<close>

definition next_char ::
  "'f helpers \<Rightarrow> bool \<Rightarrow> cptr \<Rightarrow> cptr \<Rightarrow> int \<Rightarrow> int \<Rightarrow> int \<Rightarrow>
   fault + (char \<times> int \<times> int \<times> int \<times> int \<times> int) option" where
  "next_char h f8 row headline i j xp =
     (if row = NullP \<or> headline = NullP then Inr None
      else
        (case peek row i of
           Inl e \<Rightarrow> Inl e
         | Inr c \<Rightarrow>
             if c = NUL then Inr None
             else
               (case peek headline j of
                  Inl e \<Rightarrow> Inl e
                | Inr typ \<Rightarrow>
                    if typ = LF then Inr None
                    else if f8 then Inr (Some (typ, 1, 1, i + 1, j + 1, xp + 1))
                    else
                      (case at_offset row i of
                         NullP \<Rightarrow> Inl NullDeref
                       | Ptr bytes \<Rightarrow>
                           Inr (Some (typ, utf8charlen c, h_utf_dsplen h bytes,
                                      i + utf8charlen c, j + h_utf_dsplen h bytes,
                                      xp + h_utf_dsplen h bytes))))))"

lemma next_char_advance:
  assumes "next_char h f8 (Ptr s) headline i j xp = Inr (Some (typ, sz, w, i', j', xp'))"
  shows "0 \<le> i \<and> i < int (length s) \<and> i < i'"
  using assms utf8charlen_gt0
  by (auto simp: next_char_def peek_def at_offset_def split: if_splits sum.splits cptr.splits)

lemma next_char_null:
  "next_char h f8 NullP headline i j xp = Inr None"
  by (simp add: next_char_def)

text \<open>The number of bytes of the row from the offset on: it bounds the number of
  characters that \<^verbatim>\<open>next_char\<close> can still return.\<close>

definition row_left :: "cptr \<Rightarrow> int \<Rightarrow> nat" where
  "row_left row i = (case row of NullP \<Rightarrow> 0 | Ptr s \<Rightarrow> nat (int (length s) - i))"

lemma next_char_measure:
  assumes "next_char h f8 row headline i j xp = Inr (Some (c, sz, w, i', j', xp'))"
  shows "row_left row i' < row_left row i"
proof (cases row)
  case NullP
  with assms show ?thesis by (simp add: next_char_null)
next
  case (Ptr s)
  with assms next_char_advance[of h f8 s headline i j xp c sz w i' j' xp']
  show ?thesis by (simp add: row_left_def)
qed

section \<open>export_data\<close>

text \<open>Modelled from the spec: the commands of \<^verbatim>\<open>PspgCommand\<close> (declared in
  \<^verbatim>\<open>commands.h\<close>, which is not among the sources) that \<^verbatim>\<open>export_data\<close> tells apart;
  \<open>cmd_CopyAllLines\<close> stands for the request for the whole table, which no branch of the
  function names.\<close>

datatype PspgCommand =
    cmd_Copy
  | cmd_CopyLine
  | cmd_CopyLineExtended
  | cmd_CopyColumn
  | cmd_CopyTopLines
  | cmd_CopyBottomLines
  | cmd_CopyMarkedLines
  | cmd_CopySearchedLines
  | cmd_CopySelected
  | cmd_CopyAllLines

text \<open>Modelled from the spec: the fields of \<^verbatim>\<open>Options\<close>, \<^verbatim>\<open>ScrDesc\<close>, \<^verbatim>\<open>DataDesc\<close> and
  \<^verbatim>\<open>LineInfo\<close> (declared in \<^verbatim>\<open>pspg.h\<close>) that \<^verbatim>\<open>export_data\<close> reads. A \<^verbatim>\<open>CRange\<close> is the pair
  of its \<^verbatim>\<open>xmin\<close> and \<^verbatim>\<open>xmax\<close>. The two fields of \<open>LineInfo\<close> are the bits
  \<^verbatim>\<open>LINEINFO_BOOKMARK\<close> and \<^verbatim>\<open>LINEINFO_FOUNDSTR\<close> of its mask.\<close>

record Options =
  opts_force8bit :: bool
  opts_empty_string_is_null :: bool
  no_cursor :: bool
  vertical_cursor :: bool

record ScrDesc =
  selected_first_row :: int
  selected_rows :: int
  selected_first_column :: int
  selected_columns :: int

record DataDesc =
  first_data_row :: int
  last_row :: int
  last_data_row :: int
  desc_columns :: int
  cranges :: "(int \<times> int) list"
  border_top_row :: int
  border_bottom_row :: int
  border_head_row :: int
  fixed_rows :: int
  footer_row :: int
  headline_transl :: cptr

record LineInfo =
  bookmark :: bool
  foundstr :: bool

text \<open>What the line buffer hands out for one line (\<^verbatim>\<open>lbm_get_line\<close>, line 823): the text
  of the row, its line info if it has one, and its number.\<close>

record line =
  rowstr :: cptr
  linfo :: "LineInfo option"
  rn :: int

text \<open>The local variables of \<^verbatim>\<open>export_data\<close> that the loop over the lines reads.\<close>

record 'f locals =
  expstate :: "'f ExportState"
  min_row :: int
  max_row :: int
  print_header :: bool
  print_footer :: bool
  print_border :: bool
  print_header_line :: bool

text \<open>The value of a C \<^verbatim>\<open>int\<close> expression whose exact value is \<open>x\<close>, on a target with
  32-bit two's complement \<^verbatim>\<open>int\<close>: the value is reduced into \<open>-2^31 .. 2^31 - 1\<close>. (C
  leaves signed overflow undefined; the usual targets wrap around.)\<close>

definition int_wrap :: "int \<Rightarrow> int" where
  "int_wrap x = (x + 2 ^ 31) mod 2 ^ 32 - 2 ^ 31"

text \<open>A \<^verbatim>\<open>double\<close> is an IEEE 754 binary64 number; a finite one is modelled by the real
  number it stands for. \<open>pow2 e\<close> is \<open>2^e\<close>. \<open>double_exponent x\<close> is, for \<open>x > 0\<close>, the
  exponent \<open>e\<close> with \<open>2^e \<le> x < 2^(e+1)\<close>.\<close>

definition pow2 :: "int \<Rightarrow> real" where
  "pow2 e = (if 0 \<le> e then 2 ^ nat e else 1 / 2 ^ nat (- e))"

definition double_exponent :: "real \<Rightarrow> int" where
  "double_exponent x =
     (if 1 \<le> x then bitlen \<lfloor>x\<rfloor> - 1
      else - bitlen (\<lceil>1 / x\<rceil> - 1))"

text \<open>Rounding to the nearest integer, a tie going to the even one.\<close>

definition round_half_even :: "real \<Rightarrow> int" where
  "round_half_even x =
     (if x - real_of_int \<lfloor>x\<rfloor> < 1 / 2 then \<lfloor>x\<rfloor>
      else if 1 / 2 < x - real_of_int \<lfloor>x\<rfloor> then \<lfloor>x\<rfloor> + 1
      else if even \<lfloor>x\<rfloor> then \<lfloor>x\<rfloor> else \<lfloor>x\<rfloor> + 1)"

text \<open>The \<^verbatim>\<open>double\<close> that an arithmetic operation gives when its exact result is \<open>x\<close>:
  \<open>x\<close> rounded to 53 significant bits, to nearest with ties to even; below \<open>2^-1022\<close> the
  spacing stays that of the smallest normal numbers. A result above the largest
  \<^verbatim>\<open>double\<close> stands for infinity: the only operation applied to it here is the conversion
  to \<^verbatim>\<open>int\<close>, which treats both alike.\<close>

definition round_double :: "real \<Rightarrow> real" where
  "round_double x =
     (if x = 0 then 0
      else sgn x *
           real_of_int
             (round_half_even (\<bar>x\<bar> / pow2 (max (double_exponent \<bar>x\<bar>) (- 1022) - 52))) *
           pow2 (max (double_exponent \<bar>x\<bar>) (- 1022) - 52))"

text \<open>The conversion of a \<^verbatim>\<open>double\<close> to \<^verbatim>\<open>int\<close>, which drops the fraction. When the
  value does not fit into an \<^verbatim>\<open>int\<close>, C leaves the conversion undefined; the model gives
  what the conversion instruction of x86-64 gives, the least \<^verbatim>\<open>int\<close>.\<close>

definition double_to_int :: "real \<Rightarrow> int" where
  "double_to_int x =
     (if - (2 ^ 31) \<le> (if 0 \<le> x then \<lfloor>x\<rfloor> else \<lceil>x\<rceil>) \<and>
         (if 0 \<le> x then \<lfloor>x\<rfloor> else \<lceil>x\<rceil>) < 2 ^ 31
      then (if 0 \<le> x then \<lfloor>x\<rfloor> else \<lceil>x\<rceil>)
      else - (2 ^ 31))"

text \<open>Lines 716-720: the table name is quoted once.\<close>

definition quote_table_name ::
  "'f helpers \<Rightarrow> Options \<Rightarrow> cptr \<Rightarrow> fault + cptr" where
  "quote_table_name h opts table_name0 =
     (case c_str table_name0 of
        Inl e \<Rightarrow> Inl e
      | Inr tn \<Rightarrow>
          (case quote_sql_identifier (h_smalloc2 h) table_name0 (int (length tn))
                  (opts_force8bit opts) of
             Inl e \<Rightarrow> Inl e
           | Inr (q, n) \<Rightarrow> Inr (resolve table_name0 q)))"

text \<open>\<^verbatim>\<open>has_selection\<close> (lines 704-706).\<close>

definition has_selection :: "ScrDesc \<Rightarrow> bool" where
  "has_selection scrdesc =
     ((selected_first_row scrdesc \<noteq> - 1 \<and> selected_rows scrdesc > 0) \<or>
      (selected_first_column scrdesc \<noteq> - 1 \<and> selected_columns scrdesc > 0))"

text \<open>The local \<^verbatim>\<open>format\<close> after lines 708-709. (\<^verbatim>\<open>expstate.format\<close> was set on line 691,
  before this assignment.)\<close>

definition local_format :: "PspgCommand \<Rightarrow> ClipboardFormat \<Rightarrow> ClipboardFormat" where
  "local_format cmd format0 =
     (if cmd = cmd_CopyLineExtended \<and> \<not> DSV_FORMAT_TYPE format0 then CLIPBOARD_FORMAT_CSV
      else format0)"

text \<open>Lines 685-700 and 711-724: the initial values. \<^verbatim>\<open>expstate.colno\<close> has no value before
  line 878 sets it for the first row; the model starts it at 0.\<close>

definition initial_locals ::
  "Options \<Rightarrow> DataDesc \<Rightarrow> 'f \<Rightarrow> cptr \<Rightarrow> PspgCommand \<Rightarrow> ClipboardFormat \<Rightarrow> 'f locals" where
  "initial_locals opts desc fp0 tname cmd format0 =
     \<lparr>expstate =
        \<lparr>fp = fp0, format = format0, xmin = - 1, xmax = - 1,
         copy_line_extended = (cmd = cmd_CopyLineExtended),
         table_name = tname, columns = desc_columns desc,
         force8bit = opts_force8bit opts,
         empty_string_is_null = opts_empty_string_is_null opts,
         colno = 0, colnames = None\<rparr>,
      min_row = first_data_row desc, max_row = last_row desc,
      print_header = True, print_footer = True, print_border = True,
      print_header_line = True\<rparr>"

text \<open>Lines 726-732.\<close>

definition range_line :: "Options \<Rightarrow> ScrDesc \<Rightarrow> DataDesc \<Rightarrow> int \<Rightarrow> PspgCommand \<Rightarrow> 'f locals \<Rightarrow> 'f locals" where
  "range_line opts scrdesc desc cursor_row cmd l =
     (if cmd = cmd_CopyLine \<or> cmd = cmd_CopyLineExtended \<or>
         (cmd = cmd_Copy \<and> \<not> no_cursor opts \<and> \<not> has_selection scrdesc)
      then l\<lparr>min_row := cursor_row + first_data_row desc,
             max_row := cursor_row + first_data_row desc,
             print_footer := False\<rparr>
      else l)"

text \<open>Lines 734-741; the read of \<^verbatim>\<open>desc->cranges[cursor_column - 1]\<close> is a read of an
  array.\<close>

definition range_column :: "Options \<Rightarrow> DataDesc \<Rightarrow> int \<Rightarrow> PspgCommand \<Rightarrow> 'f locals \<Rightarrow> fault + 'f locals" where
  "range_column opts desc cursor_column cmd l =
     (if (cmd = cmd_Copy \<and> vertical_cursor opts) \<or> cmd = cmd_CopyColumn then
        (if 0 \<le> cursor_column - 1 \<and> cursor_column - 1 < int (length (cranges desc)) then
           Inr (l\<lparr>expstate := (expstate l)
                     \<lparr>xmin := fst (cranges desc ! nat (cursor_column - 1)),
                      xmax := snd (cranges desc ! nat (cursor_column - 1))\<rparr>,
                   print_footer := False\<rparr>)
         else Inl OutOfBounds)
      else Inr l)"

text \<open>Lines 743-749.\<close>

definition range_cross :: "Options \<Rightarrow> PspgCommand \<Rightarrow> 'f locals \<Rightarrow> 'f locals" where
  "range_cross opts cmd l =
     (if cmd = cmd_Copy \<and> \<not> no_cursor opts \<and> vertical_cursor opts
      then l\<lparr>print_header := False, print_header_line := False, print_border := False\<rparr>
      else l)"

text \<open>\<^verbatim>\<open>desc->last_data_row - desc->first_data_row + 1\<close> (lines 763 and 766).\<close>

definition data_rows :: "DataDesc \<Rightarrow> int" where
  "data_rows desc = int_wrap (int_wrap (last_data_row desc - first_data_row desc) + 1)"

text \<open>Lines 762-763: the value of \<^verbatim>\<open>rows\<close> from there on. The count of data rows is
  converted to \<^verbatim>\<open>double\<close> (exactly), \<^verbatim>\<open>percent / 100.0\<close> and the product are rounded, and
  the product is converted to \<^verbatim>\<open>int\<close>.\<close>

definition rows_after_percent :: "DataDesc \<Rightarrow> int \<Rightarrow> real \<Rightarrow> int" where
  "rows_after_percent desc rows percent =
     (if percent \<noteq> 0
      then double_to_int
             (round_double (real_of_int (data_rows desc) * round_double (percent / 100)))
      else rows)"

text \<open>Lines 751-774; \<open>None\<close> is the \<^verbatim>\<open>return false\<close> of line 759.\<close>

definition range_top_bottom ::
  "DataDesc \<Rightarrow> int \<Rightarrow> real \<Rightarrow> PspgCommand \<Rightarrow> 'f locals \<Rightarrow> 'f locals option" where
  "range_top_bottom desc rows percent cmd l =
     (if cmd = cmd_CopyTopLines \<or> cmd = cmd_CopyBottomLines then
        (if rows < 0 \<or> percent < 0 then None
         else
           (let rows' = rows_after_percent desc rows percent;
                skip_data_rows = (if cmd = cmd_CopyBottomLines
                                  then int_wrap (data_rows desc - rows')
                                  else 0)
            in Some (l\<lparr>min_row := int_wrap (min_row l + skip_data_rows),
                        max_row := int_wrap
                                     (int_wrap (int_wrap (first_data_row desc + rows') - 1) +
                                      skip_data_rows),
                        print_footer := False\<rparr>)))
      else Some l)"

text \<open>Lines 776-796.\<close>

definition range_marked :: "PspgCommand \<Rightarrow> 'f locals \<Rightarrow> 'f locals" where
  "range_marked cmd l =
     (if cmd = cmd_CopyMarkedLines \<or> cmd = cmd_CopySearchedLines
      then l\<lparr>print_footer := False\<rparr> else l)"

definition range_selected_rows :: "ScrDesc \<Rightarrow> DataDesc \<Rightarrow> 'f locals \<Rightarrow> 'f locals" where
  "range_selected_rows scrdesc desc l =
     (if selected_first_row scrdesc \<noteq> - 1
      then l\<lparr>min_row := selected_first_row scrdesc + first_data_row desc,
             max_row := selected_first_row scrdesc + first_data_row desc +
                        selected_rows scrdesc - 1\<rparr>
      else l)"

definition range_selected_columns :: "ScrDesc \<Rightarrow> 'f locals \<Rightarrow> 'f locals" where
  "range_selected_columns scrdesc l =
     (if selected_first_column scrdesc \<noteq> - 1 \<and> selected_columns scrdesc > 0
      then l\<lparr>expstate := (expstate l)
                \<lparr>xmin := selected_first_column scrdesc,
                 xmax := selected_first_column scrdesc + selected_columns scrdesc - 1\<rparr>\<rparr>
      else l)"

definition range_selected_footer :: "DataDesc \<Rightarrow> 'f locals \<Rightarrow> 'f locals" where
  "range_selected_footer desc l =
     (if min_row l > first_data_row desc \<or> max_row l < last_data_row desc
      then l\<lparr>print_footer := False\<rparr> else l)"

definition range_selected :: "ScrDesc \<Rightarrow> DataDesc \<Rightarrow> PspgCommand \<Rightarrow> 'f locals \<Rightarrow> 'f locals" where
  "range_selected scrdesc desc cmd l =
     (if (cmd = cmd_Copy \<and> has_selection scrdesc) \<or> cmd = cmd_CopySelected
      then range_selected_footer desc
             (range_selected_columns scrdesc (range_selected_rows scrdesc desc l))
      else l)"

text \<open>Lines 798-806; \<open>fmt\<close> is the local \<^verbatim>\<open>format\<close>.\<close>

definition range_flags :: "PspgCommand \<Rightarrow> ClipboardFormat \<Rightarrow> 'f locals \<Rightarrow> 'f locals" where
  "range_flags cmd fmt l =
     (let l1 = (if fmt \<noteq> CLIPBOARD_FORMAT_TEXT
                then l\<lparr>print_border := False, print_footer := False,
                       print_header_line := False\<rparr>
                else l)
      in if cmd = cmd_CopyLineExtended \<or> INSERT_FORMAT_TYPE fmt
         then l1\<lparr>print_header := True\<rparr> else l1)"

text \<open>Lines 685-806 as a whole: the local variables before the loop over the lines, or
  \<open>None\<close> when the function returned false on line 759.\<close>

definition export_setup ::
  "'f helpers \<Rightarrow> Options \<Rightarrow> ScrDesc \<Rightarrow> DataDesc \<Rightarrow> int \<Rightarrow> int \<Rightarrow> 'f \<Rightarrow> int \<Rightarrow> real \<Rightarrow> cptr \<Rightarrow>
   PspgCommand \<Rightarrow> ClipboardFormat \<Rightarrow> fault + 'f locals option" where
  "export_setup h opts scrdesc desc cursor_row cursor_column fp0 rows percent table_name0 cmd format0 =
     (case (if INSERT_FORMAT_TYPE (local_format cmd format0)
            then quote_table_name h opts table_name0 else Inr NullP) of
        Inl e \<Rightarrow> Inl e
      | Inr tname \<Rightarrow>
          (case range_column opts desc cursor_column cmd
                  (range_line opts scrdesc desc cursor_row cmd
                     (initial_locals opts desc fp0 tname cmd format0)) of
             Inl e \<Rightarrow> Inl e
           | Inr l \<Rightarrow>
               (case range_top_bottom desc rows percent cmd (range_cross opts cmd l) of
                  None \<Rightarrow> Inr None
                | Some l' \<Rightarrow>
                    Inr (Some (range_flags cmd (local_format cmd format0)
                                 (range_selected scrdesc desc cmd (range_marked cmd l')))))))"

text \<open>Line 828: the row number lies outside the rows selected.\<close>

definition row_out_of_range :: "'f locals \<Rightarrow> int \<Rightarrow> bool" where
  "row_out_of_range l n = (n < min_row l \<or> n > max_row l)"

text \<open>Line 826: the line is a data row.\<close>

definition is_data_row :: "DataDesc \<Rightarrow> int \<Rightarrow> bool" where
  "is_data_row desc n = (n \<ge> first_data_row desc \<and> n \<le> last_data_row desc)"

text \<open>\<^verbatim>\<open>!linfo || ((linfo->mask & FLAG) == 0)\<close> for one of the two flags.\<close>

definition lacks :: "(LineInfo \<Rightarrow> bool) \<Rightarrow> LineInfo option \<Rightarrow> bool" where
  "lacks flag li = (case li of None \<Rightarrow> True | Some i \<Rightarrow> \<not> flag i)"

text \<open>Lines 825-868: the line is left out (\<^verbatim>\<open>continue\<close>). \<^verbatim>\<open>set_line_info\<close> is not among
  the sources; it is a parameter that gives the line info of a row after the search.\<close>

definition line_skipped ::
  "(cptr \<Rightarrow> LineInfo option) \<Rightarrow> DataDesc \<Rightarrow> int \<Rightarrow> PspgCommand \<Rightarrow> 'f locals \<Rightarrow> line \<Rightarrow> bool" where
  "line_skipped set_line_info desc cursor_row cmd l lbm =
     (if is_data_row desc (rn lbm) then
        (if row_out_of_range l (rn lbm) then True
         else if cmd = cmd_CopyMarkedLines \<and> lacks bookmark (linfo lbm) then True
         else if cmd \<noteq> cmd_CopyMarkedLines \<and> cmd = cmd_CopyLine \<and>
                 rn lbm - first_data_row desc \<noteq> cursor_row then True
         else cmd = cmd_CopySearchedLines \<and> lacks foundstr (set_line_info (rowstr lbm)))
      else
        ((\<not> print_border l \<and>
            (rn lbm = border_top_row desc \<or> rn lbm = border_bottom_row desc)) \<or>
         (\<not> print_header_line l \<and> rn lbm = border_head_row desc) \<or>
         (\<not> print_header l \<and> rn lbm < fixed_rows desc) \<or>
         (\<not> print_footer l \<and> footer_row desc \<noteq> - 1 \<and> rn lbm \<ge> footer_row desc)))"

text \<open>Lines 821 and 852-855.\<close>

definition line_is_colname :: "DataDesc \<Rightarrow> line \<Rightarrow> bool" where
  "line_is_colname desc lbm =
     (\<not> is_data_row desc (rn lbm) \<and>
      rn lbm \<noteq> border_top_row desc \<and> rn lbm \<noteq> border_bottom_row desc \<and>
      rn lbm \<noteq> border_head_row desc \<and> rn lbm \<le> fixed_rows desc)"

text \<open>Lines 895-904 and 917-924: the field collected so far, if there is one, goes to
  \<^verbatim>\<open>process_item\<close> as a data token. \<open>field\<close> is the offset of the field in the row.\<close>

definition flush_field ::
  "'f helpers \<Rightarrow> cptr \<Rightarrow> bool \<Rightarrow> int option \<Rightarrow> int \<Rightarrow> int \<Rightarrow> 'f ExportState \<Rightarrow> int \<Rightarrow>
   fault + (bool \<times> 'f ExportState \<times> int)" where
  "flush_field h row is_colname field field_size field_xpos es errno0 =
     (case field of
        None \<Rightarrow> Inr (True, es, errno0)
      | Some i \<Rightarrow>
          process_item h es errno0 (CHR ''d'') (at_offset row i) field_size field_xpos
            is_colname)"

text \<open>The loop of lines 883-915. Its result is \<open>False\<close> with the state when a call of
  \<^verbatim>\<open>process_item\<close> returned false (\<^verbatim>\<open>goto exit_export\<close>), else \<open>True\<close> with the field
  collected at the end of the row and the state. (The local counter \<^verbatim>\<open>colno\<close> of lines
  877 and 913-914 is never read and is left out.)\<close>

function row_loop ::
  "'f helpers \<Rightarrow> bool \<Rightarrow> cptr \<Rightarrow> cptr \<Rightarrow> bool \<Rightarrow> int \<Rightarrow> int \<Rightarrow> int \<Rightarrow>
   int option \<Rightarrow> int \<Rightarrow> int \<Rightarrow> 'f ExportState \<Rightarrow> int \<Rightarrow>
   fault + (bool \<times> int option \<times> int \<times> int \<times> 'f ExportState \<times> int)" where
  "row_loop h f8 row headline is_colname i j xp field field_size field_xpos es errno0 =
     (case next_char h f8 row headline i j xp of
        Inl e \<Rightarrow> Inl e
      | Inr None \<Rightarrow> Inr (True, field, field_size, field_xpos, es, errno0)
      | Inr (Some (typ, sz, w, i', j', xp')) \<Rightarrow>
          if typ = CHR ''d'' then
            row_loop h f8 row headline is_colname i' j' xp'
              (if field = None then Some i else field) (field_size + sz) xp es errno0
          else
            (case flush_field h row is_colname field field_size field_xpos es errno0 of
               Inl e \<Rightarrow> Inl e
             | Inr (isok1, es1, errno1) \<Rightarrow>
                 if \<not> isok1 then Inr (False, field, field_size, field_xpos, es1, errno1)
                 else
                   (case process_item h es1 errno1 typ (at_offset row i) sz xp is_colname of
                      Inl e \<Rightarrow> Inl e
                    | Inr (isok2, es2, errno2) \<Rightarrow>
                        if \<not> isok2 then Inr (False, None, 0, - 1, es2, errno2)
                        else row_loop h f8 row headline is_colname i' j' xp'
                               None 0 (- 1) es2 errno2)))"
  by pat_completeness auto

termination row_loop
  by (relation "measure (\<lambda>(h, f8, row, headline, is_colname, i, j, xp, field, field_size,
                            field_xpos, es, errno0). row_left row i)")
     (auto dest: next_char_measure)

declare row_loop.simps [simp del]

text \<open>Lines 870-929: one line that was not left out. \<^verbatim>\<open>expstate.colno\<close> starts at 0.\<close>

definition export_row ::
  "'f helpers \<Rightarrow> Options \<Rightarrow> DataDesc \<Rightarrow> bool \<Rightarrow> cptr \<Rightarrow> 'f ExportState \<Rightarrow> int \<Rightarrow>
   fault + (bool \<times> 'f ExportState \<times> int)" where
  "export_row h opts desc is_colname row es errno0 =
     (case row_loop h (opts_force8bit opts) row (headline_transl desc) is_colname 0 0 0
             None 0 (- 1) (es\<lparr>colno := 0\<rparr>) errno0 of
        Inl e \<Rightarrow> Inl e
      | Inr (isok, field, field_size, field_xpos, es1, errno1) \<Rightarrow>
          if \<not> isok then Inr (False, es1, errno1)
          else
            (case flush_field h row is_colname field field_size field_xpos es1 errno1 of
               Inl e \<Rightarrow> Inl e
             | Inr (isok2, es2, errno2) \<Rightarrow>
                 if \<not> isok2 then Inr (False, es2, errno2)
                 else process_item h es2 errno2 (CHR ''N'') NullP 0 (- 1) is_colname))"

text \<open>The loop of lines 810-930 over the lines that the line buffer hands out.\<close>

fun export_lines ::
  "'f helpers \<Rightarrow> (cptr \<Rightarrow> LineInfo option) \<Rightarrow> Options \<Rightarrow> DataDesc \<Rightarrow> int \<Rightarrow> PspgCommand \<Rightarrow>
   'f locals \<Rightarrow> line list \<Rightarrow> 'f ExportState \<Rightarrow> int \<Rightarrow> fault + (bool \<times> 'f ExportState \<times> int)" where
  "export_lines h set_line_info opts desc cursor_row cmd l [] es errno0 = Inr (True, es, errno0)"
| "export_lines h set_line_info opts desc cursor_row cmd l (lbm # lns) es errno0 =
     (if line_skipped set_line_info desc cursor_row cmd l lbm then
        export_lines h set_line_info opts desc cursor_row cmd l lns es errno0
      else
        (case export_row h opts desc (line_is_colname desc lbm) (rowstr lbm) es errno0 of
           Inl e \<Rightarrow> Inl e
         | Inr (isok, es1, errno1) \<Rightarrow>
             if \<not> isok then Inr (False, es1, errno1)
             else export_lines h set_line_info opts desc cursor_row cmd l lns es1 errno1))"

text \<open>\<^verbatim>\<open>export_data\<close> (lines 660-947). The lines that the line buffer of \<^verbatim>\<open>desc\<close> hands
  out are the argument \<open>lns\<close>, and \<open>errno0\<close> is the value of \<^verbatim>\<open>errno\<close> at the call. The
  result is the value returned, the output stream and \<^verbatim>\<open>errno\<close>. (The buffers released at
  the end are not part of the model.)\<close>

definition export_data ::
  "'f helpers \<Rightarrow> (cptr \<Rightarrow> LineInfo option) \<Rightarrow> line list \<Rightarrow> int \<Rightarrow>
   Options \<Rightarrow> ScrDesc \<Rightarrow> DataDesc \<Rightarrow> int \<Rightarrow> int \<Rightarrow> 'f \<Rightarrow> int \<Rightarrow> real \<Rightarrow> cptr \<Rightarrow>
   PspgCommand \<Rightarrow> ClipboardFormat \<Rightarrow> fault + (bool \<times> 'f \<times> int)" where
  "export_data h set_line_info lns errno0
     opts scrdesc desc cursor_row cursor_column fp0 rows percent table_name0 cmd format0 =
     (case export_setup h opts scrdesc desc cursor_row cursor_column fp0 rows percent
             table_name0 cmd format0 of
        Inl e \<Rightarrow> Inl e
      | Inr None \<Rightarrow> Inr (False, fp0, errno0)
      | Inr (Some l) \<Rightarrow>
          (case export_lines h set_line_info opts desc cursor_row cmd l lns (expstate l) errno0 of
             Inl e \<Rightarrow> Inl e
           | Inr (isok, es, errno1) \<Rightarrow> Inr (isok, fp es, errno1)))"

section \<open>Vocabulary of the statements\<close>

text \<open>The field with every occurrence of the quote character \<open>q\<close> written twice.\<close>

definition doubled :: "char \<Rightarrow> string \<Rightarrow> string" where
  "doubled q xs = concat (map (\<lambda>c. if c = q then [q, q] else [c]) xs)"

text \<open>The field between two quote characters \<open>q\<close>, its own occurrences of \<open>q\<close> doubled.\<close>

definition wrapped :: "char \<Rightarrow> string \<Rightarrow> string" where
  "wrapped q xs = q # doubled q xs @ [q]"

text \<open>The call returned a buffer of its own that holds the text \<open>txt\<close> as a C string: the
  bytes of \<open>txt\<close> followed by NUL, at the start of the buffer.\<close>

definition returns_fresh_text :: "fault + (qptr \<times> int) \<Rightarrow> string \<Rightarrow> bool" where
  "returns_fresh_text r txt =
     (case r of
        Inr (Fresh buf, n) \<Rightarrow> take (length txt + 1) buf = txt @ [NUL]
      | _ \<Rightarrow> False)"

definition is_digit :: "char \<Rightarrow> bool" where
  "is_digit c = (CHR ''0'' \<le> c \<and> c \<le> CHR ''9'')"

text \<open>Digits with at most one decimal point.\<close>

definition numeric_shape :: "string \<Rightarrow> bool" where
  "numeric_shape xs = ((\<forall>c \<in> set xs. is_digit c \<or> c = CHR ''.'') \<and> count_list xs (CHR ''.'') \<le> 1)"

text \<open>An allocator whose buffers come zero-filled, for the concrete runs below.\<close>

definition zero_fill :: "int \<Rightarrow> nat \<Rightarrow> char" where
  "zero_fill n i = NUL"

text \<open>A concrete setting for the runs below: the output stream is the string of the bytes
  written so far and no write fails, every character is one column wide, and no row is a
  search hit.\<close>

definition append_write :: "string \<Rightarrow> string \<Rightarrow> string \<times> int" where
  "append_write f bytes = (f @ bytes, 0)"

definition unit_width :: "string \<Rightarrow> int" where
  "unit_width s = 1"

definition byte_width :: "string \<Rightarrow> int" where
  "byte_width s = int (length s)"

definition plain_helpers :: "string helpers" where
  "plain_helpers =
     \<lparr>h_smalloc2 = zero_fill, h_write = append_write,
      h_utf_dsplen = unit_width, h_utf_string_dsplen = byte_width\<rparr>"

definition no_search :: "cptr \<Rightarrow> LineInfo option" where
  "no_search row = None"

text \<open>A table of two columns with a header row, the line under the header and two data
  rows, as the pager holds it, and the same table without its header.\<close>

definition demo_desc :: DataDesc where
  "demo_desc =
     \<lparr>first_data_row = 2, last_row = 3, last_data_row = 3, desc_columns = 2,
      cranges = [(0, 3), (4, 7)],
      border_top_row = - 1, border_bottom_row = - 1, border_head_row = 1,
      fixed_rows = 1, footer_row = - 1,
      headline_transl = Ptr (''dddIddd'' @ [LF, NUL])\<rparr>"

definition demo_lines :: "line list" where
  "demo_lines =
     [\<lparr>rowstr = Ptr ('' a | b '' @ [NUL]), linfo = None, rn = 0\<rparr>,
      \<lparr>rowstr = Ptr (''---+---'' @ [NUL]), linfo = None, rn = 1\<rparr>,
      \<lparr>rowstr = Ptr ('' 1 | 2 '' @ [NUL]), linfo = None, rn = 2\<rparr>,
      \<lparr>rowstr = Ptr ('' 3 | x '' @ [NUL]), linfo = None, rn = 3\<rparr>]"

definition bare_desc :: DataDesc where
  "bare_desc =
     \<lparr>first_data_row = 0, last_row = 0, last_data_row = 0, desc_columns = 1,
      cranges = [(0, 3)],
      border_top_row = - 1, border_bottom_row = - 1, border_head_row = - 1,
      fixed_rows = - 1, footer_row = - 1,
      headline_transl = Ptr (''ddd'' @ [LF, NUL])\<rparr>"

definition bare_lines :: "line list" where
  "bare_lines = [\<lparr>rowstr = Ptr ('' 1 '' @ [NUL]), linfo = None, rn = 0\<rparr>]"

text \<open>A table of one cell that holds \<^verbatim>\<open>a"b\<close>.\<close>

definition quoted_lines :: "line list" where
  "quoted_lines =
     [\<lparr>rowstr = Ptr ([CHR ''a'', DQUOTE, CHR ''b'', NUL]), linfo = None, rn = 0\<rparr>]"

definition demo_opts :: Options where
  "demo_opts =
     \<lparr>opts_force8bit = True, opts_empty_string_is_null = False,
      no_cursor = False, vertical_cursor = False\<rparr>"

definition no_selection :: ScrDesc where
  "no_selection =
     \<lparr>selected_first_row = - 1, selected_rows = 0,
      selected_first_column = - 1, selected_columns = 0\<rparr>"

text \<open>An export state in CSV format with the column range of the second column of the
  table above, and one in the commented INSERT format before any header row was seen.\<close>

definition csv_state :: "string ExportState" where
  "csv_state =
     \<lparr>fp = [], format = CLIPBOARD_FORMAT_CSV, xmin = 4, xmax = 7,
      copy_line_extended = False, table_name = NullP, columns = 2,
      force8bit = True, empty_string_is_null = False, colno = 0, colnames = None\<rparr>"

definition commented_state :: "string ExportState" where
  "commented_state =
     \<lparr>fp = [], format = CLIPBOARD_FORMAT_INSERT_WITH_COMMENTS, xmin = 0, xmax = 1,
      copy_line_extended = False, table_name = Ptr (''orders'' @ [NUL]), columns = 2,
      force8bit = True, empty_string_is_null = False, colno = 0, colnames = None\<rparr>"

text \<open>The pointer points to a string that is terminated by NUL inside its object.\<close>

definition is_c_string :: "cptr \<Rightarrow> bool" where
  "is_c_string p = (case p of NullP \<Rightarrow> False | Ptr s \<Rightarrow> NUL \<in> set s)"

text \<open>Every byte that the allocator leaves in a new buffer is a one-byte character for
  \<^const>\<open>utf8charlen\<close>, as in a buffer filled with zeros.\<close>

definition bytewise_allocator :: "(int \<Rightarrow> nat \<Rightarrow> char) \<Rightarrow> bool" where
  "bytewise_allocator smalloc2 = (\<forall>n i. utf8charlen (smalloc2 n i) = 1)"

text \<open>The number of data rows of the table, and the number of them that the test of
  line 828 lets through.\<close>

definition total_data_rows :: "DataDesc \<Rightarrow> nat" where
  "total_data_rows desc = nat (last_data_row desc - first_data_row desc + 1)"

definition rows_selected :: "'f locals \<Rightarrow> DataDesc \<Rightarrow> nat" where
  "rows_selected l desc =
     length (filter (\<lambda>n. \<not> row_out_of_range l n) [first_data_row desc..last_data_row desc])"

text \<open>The value is one that a C \<^verbatim>\<open>int\<close> of 32 bits holds.\<close>

definition c_int :: "int \<Rightarrow> bool" where
  "c_int x = (- (2 ^ 31) \<le> x \<and> x < 2 ^ 31)"

text \<open>The table of the runs with 50 data rows.\<close>

definition fifty_rows :: DataDesc where
  "fifty_rows = demo_desc\<lparr>last_row := 51, last_data_row := 51\<rparr>"

text \<open>The bytes are a sequence of whole UTF-8 characters: after a first byte that
  announces \<open>k\<close> bytes come \<open>k - 1\<close> bytes that are not ASCII.\<close>

function utf8_chars :: "string \<Rightarrow> bool" where
  "utf8_chars [] = True"
| "utf8_chars (c # cs) =
     (nat (utf8charlen c) - 1 \<le> length cs \<and>
      (\<forall>b \<in> set (take (nat (utf8charlen c) - 1) cs). CHR 0x80 \<le> b) \<and>
      utf8_chars (drop (nat (utf8charlen c) - 1) cs))"
  by pat_completeness auto

termination utf8_chars
  by (relation "measure length") auto

declare utf8_chars.simps [simp del]

section \<open>Properties of the quoting routines\<close>

lemma strncmp_eq_take:
  "0 \<le> i \<Longrightarrow> i + int (length lit) \<le> int (length s) \<Longrightarrow>
   strncmp_eq (Ptr s) i lit = Inr (take (length lit) (drop (nat i) s) = lit)"
proof (induction lit arbitrary: i)
  case Nil
  then show ?case by (simp add: strncmp_eq.simps)
next
  case (Cons c cs)
  from Cons.prems have lt: "nat i < length s" by simp
  have d: "drop (nat i) s = s ! nat i # drop (nat (i + 1)) s"
    using lt Cons.prems(1) by (simp add: Cons_nth_drop_Suc nat_add_distrib)
  have ih: "strncmp_eq (Ptr s) (i + 1) cs = Inr (take (length cs) (drop (nat (i + 1)) s) = cs)"
    using Cons.prems by (intro Cons.IH) auto
  show ?case
    using lt Cons.prems(1) by (auto simp: strncmp_eq.simps peek_def d ih)
qed

lemma strncmp_eq_field:
  "int (length lit) \<le> int (length s) \<Longrightarrow>
   strncmp_eq (Ptr s) 0 lit = Inr (take (length lit) s = lit)"
  using strncmp_eq_take[of 0 lit s] by simp

text \<open>Claim C7: \<^verbatim>\<open>csv_format\<close> applied to an empty field (length 0) returns, when the
  null-as-empty flag is false, a new buffer holding exactly the two double quotes (and
  the terminating NUL) and reports length 2; when the flag is true it returns the null
  pointer and reports length 0. This holds for every pointer, the null pointer included,
  and in both character modes.\<close>

theorem csv_format_empty:
  "csv_format smalloc2 str 0 f8 False = Inr (Fresh [DQUOTE, DQUOTE, NUL], 2) \<and>
   csv_format smalloc2 str 0 f8 True = Inr (RNull, 0)"
  by (simp add: csv_format_def sstrdup_def)

lemma csv_scan_clean:
  "0 \<le> i \<Longrightarrow> i + slen' \<le> int (length s) \<Longrightarrow>
   (\<forall>k. i \<le> int k \<and> int k < i + slen' \<longrightarrow> s ! k \<notin> {DQUOTE, CHR '','', TAB, CR, LF}) \<Longrightarrow>
   csv_scan f8 (Ptr s) i slen' = Inr False"
proof (induction f8 "Ptr s" i slen' rule: csv_scan.induct)
  case (1 f8 i slen')
  show ?case
  proof (cases "slen' > 0")
    case False
    then show ?thesis by (subst csv_scan.simps) simp
  next
    case True
    then have inb: "nat i < length s" and pk: "peek (Ptr s) i = Inr (s ! nat i)"
      using "1.prems" by (auto simp: peek_def)
    let ?c = "s ! nat i"
    let ?sz = "if f8 then 1 else utf8charlen ?c"
    have cok: "?c \<notin> {DQUOTE, CHR '','', TAB, CR, LF}"
      using "1.prems"(3)[rule_format, of "nat i"] True "1.prems"(1) by simp
    have szpos: "0 < ?sz" by (simp add: utf8charlen_gt0)
    show ?thesis
    proof (cases "?sz \<le> slen'")
      case le: True
      have "csv_scan f8 (Ptr s) (i + ?sz) (slen' - ?sz) = Inr False"
      proof (rule "1.hyps"[OF True pk])
        show "\<not> (?c = DQUOTE \<or> ?c = CHR '','' \<or> ?c = TAB \<or> ?c = CR \<or> ?c = LF)"
          using cok by simp
        show "0 \<le> i + ?sz" using "1.prems"(1) szpos by linarith
        show "i + ?sz + (slen' - ?sz) \<le> int (length s)" using "1.prems"(2) by simp
        show "\<forall>k. i + ?sz \<le> int k \<and> int k < i + ?sz + (slen' - ?sz) \<longrightarrow>
               s ! k \<notin> {DQUOTE, CHR '','', TAB, CR, LF}"
          using "1.prems"(3) szpos by auto
      qed
      then show ?thesis
        using True pk cok by (subst csv_scan.simps) simp
    next
      case gt: False
      have "csv_scan f8 (Ptr s) (i + ?sz) (slen' - ?sz) = Inr False"
        using gt by (subst csv_scan.simps) simp
      then show ?thesis
        using True pk cok by (subst csv_scan.simps) simp
    qed
  qed
qed

text \<open>Claim C3, as amended. For every non-empty field that holds none of the characters
  double quote, comma, tab, CR, LF, and that is not the 3-byte NULL glyph read with
  force-8-bit mode off, \<^verbatim>\<open>csv_format\<close> returns the pointer it was given and leaves the
  length as it was.\<close>

theorem csv_format_clean_unchanged:
  assumes "0 < n" and "n \<le> int (length s)"
    and "\<forall>c \<in> set (take (nat n) s). c \<notin> {DQUOTE, CHR '','', TAB, CR, LF}"
    and "f8 \<or> take (nat n) s \<noteq> null_glyph"
  shows "csv_format smalloc2 (Ptr s) n f8 e = Inr (Same, n)"
proof -
  have scan: "csv_scan f8 (Ptr s) 0 n = Inr False"
  proof (rule csv_scan_clean)
    show "\<forall>k. 0 \<le> int k \<and> int k < 0 + n \<longrightarrow> s ! k \<notin> {DQUOTE, CHR '','', TAB, CR, LF}"
    proof (intro allI impI)
      fix k assume "0 \<le> int k \<and> int k < 0 + n"
      then have "k < nat n" "k < length s" using assms(2) by auto
      then have "s ! k \<in> set (take (nat n) s)"
        by (metis length_take min_less_iff_conj nth_mem nth_take)
      then show "s ! k \<notin> {DQUOTE, CHR '','', TAB, CR, LF}" using assms(3) by blast
    qed
  qed (use assms in auto)
  have len: "length null_glyph = 3" by (simp add: null_glyph_def)
  have glyph: "\<not> f8 \<and> n = 3 \<Longrightarrow> strncmp_eq (Ptr s) 0 null_glyph = Inr False"
  proof -
    assume a: "\<not> f8 \<and> n = 3"
    have "strncmp_eq (Ptr s) 0 null_glyph = Inr (take (length null_glyph) (drop (nat 0) s) = null_glyph)"
      by (rule strncmp_eq_take) (use assms a len in auto)
    then show ?thesis using a assms(4) len by simp
  qed
  show ?thesis
  proof (cases "\<not> f8 \<and> n = 3")
    case True
    from glyph[OF True] scan True show ?thesis
      by (simp add: csv_format_def)
  next
    case False
    with assms(1) scan show ?thesis
      by (auto simp: csv_format_def)
  qed
qed

theorem csv_format_clean_unchanged_witness:
  "(0::int) < 5 \<and> 5 \<le> int (length (''hello'' @ [NUL])) \<and>
   set (take 5 (''hello'' @ [NUL])) \<inter> {DQUOTE, CHR '','', TAB, CR, LF} = {} \<and>
   csv_format zero_fill (Ptr (''hello'' @ [NUL])) 5 False False = Inr (Same, 5)"
  using csv_format_clean_unchanged[of 5 "''hello'' @ [NUL]" False zero_fill False]
  by (simp add: null_glyph_def DQUOTE_def TAB_def CR_def LF_def)

text \<open>Claim C3 as stated fails for the NULL glyph when force-8-bit mode is off: the glyph
  is three bytes long and holds none of the five characters, and \<^verbatim>\<open>csv_format\<close> returns
  the null pointer with length 0 (lines 35-40).\<close>

theorem csv_format_glyph_counterexample:
  "(0::int) < 3 \<and> DQUOTE \<notin> set null_glyph \<and> CHR '','' \<notin> set null_glyph \<and>
   TAB \<notin> set null_glyph \<and> CR \<notin> set null_glyph \<and> LF \<notin> set null_glyph \<and>
   csv_format zero_fill (Ptr (null_glyph @ [NUL])) 3 False False = Inr (RNull, 0)"
  by code_simp

text \<open>Claim C4 fails on the code for the null pointer: line 111 reads \<^verbatim>\<open>*str\<close> before
  line 114 tests \<^verbatim>\<open>!str\<close>, so the call on a null pointer reads through it. (For a
  pointer that is not null, an empty string or a length of 0 gives the argument back, as
  the lemma after this one shows.)\<close>

theorem quote_sql_identifier_null_faults:
  "quote_sql_identifier smalloc2 NullP slen f8 = Inl NullDeref"
  by (simp add: quote_sql_identifier_def peek_def)

text \<open>The null pointer reaches \<^verbatim>\<open>quote_sql_identifier\<close> from \<^verbatim>\<open>process_item\<close>: for a
  header cell of spaces only \<^verbatim>\<open>trim_str\<close> returns the null pointer (lines 409-410).\<close>

lemma blank_header_cell_faults:
  "trim_str (Ptr (''   | b '' @ [NUL])) 3 True = Inr (NullP, 0) \<and>
   process_item plain_helpers (commented_state\<lparr>xmin := - 1\<rparr>) 0 (CHR ''d'')
     (Ptr (''   | b '' @ [NUL])) 3 2 True = Inl NullDeref"
  by code_simp

lemma quote_sql_identifier_empty:
  "c = NUL \<or> slen = 0 \<Longrightarrow> quote_sql_identifier smalloc2 (Ptr (c # rest)) slen f8 = Inr (Same, slen)"
  by (auto simp: quote_sql_identifier_def peek_def)



lemma doubled_simps [simp]:
  "doubled q [] = []"
  "doubled q (c # cs) = (if c = q then q # q # doubled q cs else c # doubled q cs)"
  by (simp_all add: doubled_def)

lemma length_doubled: "length (doubled q xs) = length xs + count_list xs q"
  by (induction xs) auto

lemma poke_append:
  "poke (pre @ t # tail) (int (length pre)) c = Inr ((pre @ [c]) @ tail)"
  by (simp add: poke_def)

lemma peek_nth: "0 \<le> j \<Longrightarrow> j < int (length s) \<Longrightarrow> peek (Ptr s) j = Inr (s ! nat j)"
  by (simp add: peek_def)

lemma out_charlen_bytewise:
  assumes "f8 \<or> utf8charlen t = 1"
  shows "out_charlen f8 (pre @ t # tail) (int (length pre)) = Inr 1"
  using assms by (auto simp: out_charlen_def peek_def)

lemma quote_loop_bytewise:
  "0 \<le> j \<Longrightarrow> j + int k \<le> int (length s) \<Longrightarrow>
   length (doubled q (take k (drop (nat j) s))) \<le> length tail \<Longrightarrow>
   f8 \<or> (\<forall>c \<in> set tail. utf8charlen c = 1) \<Longrightarrow>
   quote_loop q f8 (Ptr s) j (pre @ tail) (int (length pre)) (int k) slen =
     Inr (pre @ doubled q (take k (drop (nat j) s)) @
            drop (length (doubled q (take k (drop (nat j) s)))) tail,
          int (length pre) + int (length (doubled q (take k (drop (nat j) s)))),
          slen + int k)"
proof (induction k arbitrary: j pre tail slen)
  case 0
  then show ?case by (subst quote_loop.simps) simp
next
  case (Suc k)
  let ?c = "s ! nat j"
  from Suc.prems have lt: "nat j < length s" and pk: "peek (Ptr s) j = Inr ?c"
    by (auto simp: peek_def)
  have d: "drop (nat j) s = ?c # drop (nat (j + 1)) s"
    using lt Suc.prems(1) by (simp add: Cons_nth_drop_Suc nat_add_distrib)
  let ?fld = "take k (drop (nat (j + 1)) s)"
  have fld: "take (Suc k) (drop (nat j) s) = ?c # ?fld"
    by (simp add: d)
  show ?case
  proof (cases "?c = q")
    case True
    from Suc.prems(3) obtain t1 t2 tail' where tail: "tail = t1 # t2 # tail'"
      and len: "length (doubled q ?fld) \<le> length tail'"
      unfolding fld using True by (cases tail; cases "tl tail") auto
    have oc: "out_charlen f8 (pre @ tail) (int (length pre)) = Inr 1"
      unfolding tail by (rule out_charlen_bytewise) (use Suc.prems(4) tail in auto)
    have bw: "f8 \<or> (\<forall>c \<in> set tail'. utf8charlen c = 1)"
      using Suc.prems(4) tail by auto
    have ih: "quote_loop q f8 (Ptr s) (j + 1) ((pre @ [q, q]) @ tail') (int (length (pre @ [q, q])))
                (int k) (slen + 1) =
              Inr ((pre @ [q, q]) @ doubled q ?fld @ drop (length (doubled q ?fld)) tail',
                   int (length (pre @ [q, q])) + int (length (doubled q ?fld)), slen + 1 + int k)"
      by (rule Suc.IH) (use Suc.prems len bw in auto)
    have p1: "poke (pre @ tail) (int (length pre)) q = Inr ((pre @ [q]) @ t2 # tail')"
      unfolding tail by (rule poke_append)
    have p2: "poke ((pre @ [q]) @ t2 # tail') (int (length pre) + 1) q = Inr ((pre @ [q, q]) @ tail')"
      using poke_append[of "pre @ [q]" t2 tail' q] by (simp add: add.commute)
    have cc: "copy_chars (Ptr s) j ((pre @ [q]) @ t2 # tail') (int (length pre) + 1) (Suc 0) =
              Inr (j + 1, (pre @ [q, q]) @ tail', int (length pre) + 2)"
      using pk p2 True by simp
    show ?thesis
      apply (subst quote_loop.simps)
      using pk p1 cc ih True oc
      by (simp add: dup_quote_def fld tail add.commute add.left_commute)
  next
    case False
    from Suc.prems(3) obtain t1 tail' where tail: "tail = t1 # tail'"
      and len: "length (doubled q ?fld) \<le> length tail'"
      unfolding fld using False by (cases tail) auto
    have oc: "out_charlen f8 (pre @ tail) (int (length pre)) = Inr 1"
      unfolding tail by (rule out_charlen_bytewise) (use Suc.prems(4) tail in auto)
    have bw: "f8 \<or> (\<forall>c \<in> set tail'. utf8charlen c = 1)"
      using Suc.prems(4) tail by auto
    have ih: "quote_loop q f8 (Ptr s) (j + 1) ((pre @ [?c]) @ tail') (int (length (pre @ [?c])))
                (int k) (slen + 1) =
              Inr ((pre @ [?c]) @ doubled q ?fld @ drop (length (doubled q ?fld)) tail',
                   int (length (pre @ [?c])) + int (length (doubled q ?fld)), slen + 1 + int k)"
      by (rule Suc.IH) (use Suc.prems len bw in auto)
    have p1: "poke (pre @ tail) (int (length pre)) ?c = Inr ((pre @ [?c]) @ tail')"
      unfolding tail by (rule poke_append)
    have cc: "copy_chars (Ptr s) j (pre @ tail) (int (length pre)) (Suc 0) =
              Inr (j + 1, (pre @ [?c]) @ tail', int (length pre) + 1)"
      using pk p1 by simp
    show ?thesis
      apply (subst quote_loop.simps)
      using pk cc ih False oc
      by (simp add: dup_quote_def fld tail add.commute add.left_commute)
  qed
qed

lemma length_fresh_buffer [simp]: "length (fresh_buffer smalloc2 n) = nat n"
  by (simp add: fresh_buffer_def)

lemma quote_wrap_bytewise:
  assumes "0 \<le> n" and "n \<le> int (length s)"
    and "f8 \<or> (\<forall>i. utf8charlen (smalloc2 (n * 2 + 2 + 1) i) = 1)"
  shows "\<exists>rest. quote_wrap smalloc2 q f8 (Ptr s) n =
           Inr (Fresh (q # doubled q (take (nat n) s) @ [q, NUL] @ rest), n + 2)"
proof -
  define D where "D = doubled q (take (nat n) s)"
  define buf where "buf = fresh_buffer smalloc2 (n * 2 + 2 + 1)"
  have lenD: "length D \<le> 2 * nat n"
    using count_le_length[of "take (nat n) s" q] assms by (simp add: D_def length_doubled)
  have "length buf = 2 * nat n + 3"
    using assms(1) by (simp add: buf_def nat_add_distrib nat_mult_distrib)
  then obtain b0 tail where buf: "buf = b0 # tail" and lt: "length tail = 2 * nat n + 2"
    by (cases buf) auto
  have bw: "f8 \<or> (\<forall>c \<in> set tail. utf8charlen c = 1)"
  proof (cases f8)
    case False
    with assms(3) have "\<forall>c \<in> set buf. utf8charlen c = 1"
      by (auto simp: buf_def fresh_buffer_def)
    then show ?thesis by (simp add: buf)
  qed simp
  have p0: "poke buf 0 q = Inr ([q] @ tail)"
    using poke_append[of "[]" b0 tail q] by (simp add: buf)
  have "quote_loop q f8 (Ptr s) 0 ([q] @ tail) (int (length [q])) (int (nat n)) 1 =
      Inr ([q] @ doubled q (take (nat n) (drop (nat 0) s)) @
             drop (length (doubled q (take (nat n) (drop (nat 0) s)))) tail,
           int (length [q]) + int (length (doubled q (take (nat n) (drop (nat 0) s)))),
           1 + int (nat n))"
    by (rule quote_loop_bytewise) (use assms lenD lt bw in \<open>auto simp: D_def\<close>)
  then have loop: "quote_loop q f8 (Ptr s) 0 (q # tail) 1 n 1 =
      Inr (q # D @ drop (length D) tail, 1 + int (length D), 1 + n)"
    using assms(1) by (simp add: D_def)
  have "length (drop (length D) tail) \<ge> 2" using lenD lt by simp
  then obtain t1 t2 rest where dr: "drop (length D) tail = t1 # t2 # rest"
    by (cases "drop (length D) tail"; cases "tl (drop (length D) tail)") auto
  have p1: "poke (q # D @ t1 # t2 # rest) (1 + int (length D)) q = Inr (q # D @ q # t2 # rest)"
    using poke_append[of "[q] @ D" t1 "t2 # rest" q] by (simp add: add.commute)
  have p2: "poke (q # D @ q # t2 # rest) (1 + int (length D) + 1) NUL = Inr (q # D @ q # NUL # rest)"
    using poke_append[of "[q] @ D @ [q]" t2 rest NUL] by (simp add: add.commute)
  have "quote_wrap smalloc2 q f8 (Ptr s) n = Inr (Fresh (q # D @ [q, NUL] @ rest), n + 2)"
    unfolding quote_wrap_def buf_def[symmetric] using p0 loop p1 p2 by (simp add: dr)
  then show ?thesis unfolding D_def by blast
qed

lemma special_ascii:
  "c \<in> {DQUOTE, CHR '','', TAB, CR, LF} \<Longrightarrow> \<not> CHR 0x80 \<le> c"
  by (auto simp: DQUOTE_def TAB_def CR_def LF_def)

lemma csv_scan_found_utf8:
  "0 \<le> i \<Longrightarrow> i + int k \<le> int (length s) \<Longrightarrow>
   f8 \<or> utf8_chars (take k (drop (nat i) s)) \<Longrightarrow>
   (\<exists>c \<in> set (take k (drop (nat i) s)). c \<in> {DQUOTE, CHR '','', TAB, CR, LF}) \<Longrightarrow>
   csv_scan f8 (Ptr s) i (int k) = Inr True"
proof (induction k arbitrary: i rule: less_induct)
  case (less k)
  from less.prems(4) have kpos: "0 < k" by (cases k) auto
  let ?c = "s ! nat i"
  from less.prems kpos have lt: "nat i < length s" and pk: "peek (Ptr s) i = Inr ?c"
    by (auto simp: peek_def)
  have d: "drop (nat i) s = ?c # drop (Suc (nat i)) s"
    using lt by (simp add: Cons_nth_drop_Suc)
  obtain k' where k': "k = Suc k'" using kpos by (cases k) auto
  have fld: "take k (drop (nat i) s) = ?c # take k' (drop (Suc (nat i)) s)"
    by (simp add: d k')
  show ?case
  proof (cases "?c \<in> {DQUOTE, CHR '','', TAB, CR, LF}")
    case True
    then show ?thesis using pk kpos by (subst csv_scan.simps) auto
  next
    case False
    let ?sz = "if f8 then 1 else utf8charlen ?c"
    let ?m = "nat ?sz - 1"
    let ?rest = "take k' (drop (Suc (nat i)) s)"
    have szpos: "1 \<le> ?sz" using utf8charlen_pos by simp
    have fit: "?m \<le> k'" and cont: "\<forall>b \<in> set (take ?m ?rest). CHR 0x80 \<le> b"
      and wf: "f8 \<or> utf8_chars (drop ?m ?rest)"
      using less.prems(3) unfolding fld by (auto simp: utf8_chars.simps)
    from less.prems(4) False obtain x where x: "x \<in> set ?rest"
      "x \<in> {DQUOTE, CHR '','', TAB, CR, LF}"
      unfolding fld by auto
    have "x \<notin> set (take ?m ?rest)" using cont special_ascii[OF x(2)] by blast
    with x(1) have xin: "x \<in> set (drop ?m ?rest)"
      by (metis Un_iff append_take_drop_id set_append)
    have kk: "int k - ?sz = int (k' - ?m)" using szpos fit k' by auto
    have dr: "drop ?m ?rest = take (k' - ?m) (drop (nat (i + ?sz)) s)"
    proof -
      have "nat (i + ?sz) = Suc (nat i) + ?m" using szpos less.prems(1) by auto
      then show ?thesis by (simp add: drop_take add.commute)
    qed
    have "csv_scan f8 (Ptr s) (i + ?sz) (int (k' - ?m)) = Inr True"
    proof (rule less.IH)
      show "k' - ?m < k" using k' by simp
      show "0 \<le> i + ?sz" using less.prems(1) szpos by linarith
      show "i + ?sz + int (k' - ?m) \<le> int (length s)"
        using less.prems(2) kk by linarith
      show "f8 \<or> utf8_chars (take (k' - ?m) (drop (nat (i + ?sz)) s))"
        using wf dr by simp
      show "\<exists>c \<in> set (take (k' - ?m) (drop (nat (i + ?sz)) s)).
              c \<in> {DQUOTE, CHR '','', TAB, CR, LF}"
        using xin x(2) unfolding dr by blast
    qed
    then have "csv_scan f8 (Ptr s) (i + ?sz) (int k - ?sz) = Inr True"
      by (simp only: kk)
    then show ?thesis
      using pk False kpos by (subst csv_scan.simps) auto
  qed
qed

lemma utf8charlen_ascii: "c \<le> CHR ''9'' \<Longrightarrow> utf8charlen c = 1"
  by (simp add: utf8charlen_def less_eq_char_def)

lemma ident_char_ascii:
  "(CHR ''a'' \<le> c \<and> c \<le> CHR ''z'') \<or> (CHR ''0'' \<le> c \<and> c \<le> CHR ''9'') \<or> c = CHR ''_'' \<Longrightarrow>
   utf8charlen c = 1"
  by (auto simp: utf8charlen_def less_eq_char_def)

lemma utf8charlen_dot [simp]: "utf8charlen (CHR ''.'') = 1"
  by (simp add: utf8charlen_def)

lemma literal_step: "is_digit c \<or> c = CHR ''.'' \<Longrightarrow> (if f8 then 1 else utf8charlen c) = 1"
  by (auto simp: is_digit_def utf8charlen_ascii)

lemma literal_scan_numeric:
  "0 \<le> i \<Longrightarrow> i + int k < int (length s) \<Longrightarrow>
   \<forall>c \<in> set (take k (drop (nat i) s)). is_digit c \<or> c = CHR ''.'' \<Longrightarrow>
   count_list (take k (drop (nat i) s)) (CHR ''.'') + (if has_dot then 1 else 0) \<le> 1 \<Longrightarrow>
   literal_scan f8 (Ptr s) i (int k) has_dot = Inr False"
proof (induction k arbitrary: i has_dot)
  case 0
  then have "\<exists>c. peek (Ptr s) i = Inr c" by (simp add: peek_def)
  then show ?case by (subst literal_scan.simps) auto
next
  case (Suc k)
  let ?c = "s ! nat i"
  from Suc.prems have lt: "nat i < length s" and pk: "peek (Ptr s) i = Inr ?c"
    by (auto simp: peek_def)
  have d: "drop (nat i) s = ?c # drop (nat (i + 1)) s"
    using lt Suc.prems(1) by (simp add: Cons_nth_drop_Suc nat_add_distrib)
  have cok: "is_digit ?c \<or> ?c = CHR ''.''" using Suc.prems(3) by (simp add: d)
  then have st: "(if f8 then 1 else utf8charlen ?c) = 1" by (rule literal_step)
  have nn: "?c \<noteq> NUL" using cok by (auto simp: is_digit_def NUL_def)
  have rest: "\<forall>c \<in> set (take k (drop (nat (i + 1)) s)). is_digit c \<or> c = CHR ''.''"
    using Suc.prems(3) by (simp add: d)
  show ?case
  proof (cases "?c = CHR ''.''")
    case True
    with Suc.prems(4) have nd: "\<not> has_dot"
      and cnt: "count_list (take k (drop (nat (i + 1)) s)) (CHR ''.'') + (if True then 1 else 0) \<le> 1"
      by (auto simp: d split: if_splits)
    have "literal_scan f8 (Ptr s) (i + 1) (int k) True = Inr False"
      by (rule Suc.IH) (use Suc.prems rest cnt in auto)
    then show ?thesis
      using pk nn True nd by (subst literal_scan.simps) (cases f8; simp)
  next
    case False
    with cok have dg: "is_digit ?c" by simp
    from False Suc.prems(4) have cnt: "count_list (take k (drop (nat (i + 1)) s)) (CHR ''.'') + (if has_dot then 1 else 0) \<le> 1"
      by (simp add: d)
    have "literal_scan f8 (Ptr s) (i + 1) (int k) has_dot = Inr False"
      by (rule Suc.IH) (use Suc.prems rest cnt in auto)
    then show ?thesis
      using pk nn False dg st by (subst literal_scan.simps) (simp add: is_digit_def)
  qed
qed

lemma literal_scan_found:
  "0 \<le> i \<Longrightarrow> i + int k \<le> int (length s) \<Longrightarrow>
   NUL \<notin> set (take k (drop (nat i) s)) \<Longrightarrow>
   \<not> ((\<forall>c \<in> set (take k (drop (nat i) s)). is_digit c \<or> c = CHR ''.'') \<and>
      count_list (take k (drop (nat i) s)) (CHR ''.'') + (if has_dot then 1 else 0) \<le> 1) \<Longrightarrow>
   literal_scan f8 (Ptr s) i (int k) has_dot = Inr True"
proof (induction k arbitrary: i has_dot)
  case 0
  then show ?case by (auto split: if_splits)
next
  case (Suc k)
  let ?c = "s ! nat i"
  from Suc.prems have lt: "nat i < length s" and pk: "peek (Ptr s) i = Inr ?c"
    by (auto simp: peek_def)
  have d: "drop (nat i) s = ?c # drop (nat (i + 1)) s"
    using lt Suc.prems(1) by (simp add: Cons_nth_drop_Suc nat_add_distrib)
  have nn: "?c \<noteq> NUL" and nr: "NUL \<notin> set (take k (drop (nat (i + 1)) s))"
    using Suc.prems(3) by (auto simp: d)
  show ?case
  proof (cases "?c = CHR ''.''")
    case True
    show ?thesis
    proof (cases has_dot)
      case hd: True
      then show ?thesis using pk nn True by (subst literal_scan.simps) simp
    next
      case hd: False
      have st: "(if f8 then 1 else utf8charlen ?c) = 1" using True by (intro literal_step) simp
      from Suc.prems(4) True hd
      have bad: "\<not> ((\<forall>c \<in> set (take k (drop (nat (i + 1)) s)). is_digit c \<or> c = CHR ''.'') \<and>
                 count_list (take k (drop (nat (i + 1)) s)) (CHR ''.'') + (if True then 1 else 0) \<le> 1)"
        by (auto simp: d)
      have "literal_scan f8 (Ptr s) (i + 1) (int k) True = Inr True"
        by (rule Suc.IH) (use Suc.prems nr bad in auto)
      then show ?thesis
        using pk nn True hd by (subst literal_scan.simps) (cases f8; simp)
    qed
  next
    case False
    show ?thesis
    proof (cases "is_digit ?c")
      case dg: False
      then show ?thesis using pk nn False by (subst literal_scan.simps) (simp add: is_digit_def)
    next
      case dg: True
      then have st: "(if f8 then 1 else utf8charlen ?c) = 1" by (intro literal_step) simp
      from Suc.prems(4) False dg
      have bad: "\<not> ((\<forall>c \<in> set (take k (drop (nat (i + 1)) s)). is_digit c \<or> c = CHR ''.'') \<and>
                 count_list (take k (drop (nat (i + 1)) s)) (CHR ''.'') + (if has_dot then 1 else 0) \<le> 1)"
        by (auto simp: d)
      have "literal_scan f8 (Ptr s) (i + 1) (int k) has_dot = Inr True"
        by (rule Suc.IH) (use Suc.prems nr bad in auto)
      then show ?thesis
        using pk nn False dg st by (subst literal_scan.simps) (simp add: is_digit_def)
    qed
  qed
qed

lemma returns_fresh_textI:
  "r = Inr (Fresh (txt @ [NUL] @ rest), n) \<Longrightarrow> returns_fresh_text r txt"
  by (simp add: returns_fresh_text_def)

lemma quote_wrap_text:
  assumes "0 \<le> n" and "n \<le> int (length s)" and "f8 \<or> bytewise_allocator smalloc2"
  shows "\<exists>rest. quote_wrap smalloc2 q f8 (Ptr s) n =
           Inr (Fresh (wrapped q (take (nat n) s) @ [NUL] @ rest), n + 2)"
  using quote_wrap_bytewise[OF assms(1,2), of f8 smalloc2 q] assms(3)
  by (auto simp: wrapped_def bytewise_allocator_def)

lemma is_null_word_field:
  assumes "4 \<le> length s"
  shows "is_null_word (Ptr s) = Inr (take 4 s = ''NULL'' \<or> take 4 s = ''null'')"
proof -
  have l1: "length ''NULL'' = (4::nat)" and l2: "length ''null'' = (4::nat)" by simp_all
  have a: "strncmp_eq (Ptr s) 0 ''NULL'' = Inr (take 4 s = ''NULL'')"
    using strncmp_eq_field[of "''NULL''" s, unfolded l1] assms by simp
  have b: "strncmp_eq (Ptr s) 0 ''null'' = Inr (take 4 s = ''null'')"
    using strncmp_eq_field[of "''null''" s, unfolded l2] assms by simp
  show ?thesis unfolding is_null_word_def a b by (simp split: bool.splits)
qed

lemma glyph_test_field:
  assumes "3 \<le> length s"
  shows "strncmp_eq (Ptr s) 0 null_glyph = Inr (take 3 s = null_glyph)"
proof -
  have l: "length null_glyph = (3::nat)" by (simp add: null_glyph_def)
  show ?thesis using strncmp_eq_field[of null_glyph s, unfolded l] assms by simp
qed

lemma glyph_clean: "set null_glyph \<inter> {DQUOTE, CHR '','', TAB, CR, LF} = {}"
  by (simp add: null_glyph_def DQUOTE_def TAB_def CR_def LF_def)

lemma csv_format_quotes:
  assumes "0 < n" and "n \<le> int (length s)"
    and "\<exists>c \<in> set (take (nat n) s). c \<in> {DQUOTE, CHR '','', TAB, CR, LF}"
    and "f8 \<or> (utf8_chars (take (nat n) s) \<and> bytewise_allocator smalloc2)"
  shows "\<exists>rest. csv_format smalloc2 (Ptr s) n f8 e =
           Inr (Fresh (wrapped DQUOTE (take (nat n) s) @ [NUL] @ rest), n + 2)"
proof -
  have scan: "csv_scan f8 (Ptr s) 0 (int (nat n)) = Inr True"
    by (rule csv_scan_found_utf8) (use assms in auto)
  have ng: "take (nat n) s \<noteq> null_glyph"
    using assms(3) glyph_clean by auto
  have gl: "\<not> f8 \<and> n = 3 \<Longrightarrow> strncmp_eq (Ptr s) 0 null_glyph = Inr False"
    using glyph_test_field[of s] assms(2) ng by auto
  obtain rest where "quote_wrap smalloc2 DQUOTE f8 (Ptr s) n =
      Inr (Fresh (wrapped DQUOTE (take (nat n) s) @ [NUL] @ rest), n + 2)"
    using quote_wrap_text[of n s f8 smalloc2 DQUOTE] assms by auto
  then have "csv_format smalloc2 (Ptr s) n f8 e =
      Inr (Fresh (wrapped DQUOTE (take (nat n) s) @ [NUL] @ rest), n + 2)"
    using scan assms(1) gl by (cases "\<not> f8 \<and> n = 3") (auto simp: csv_format_def)
  then show ?thesis by blast
qed

lemma quote_sql_literal_wraps:
  assumes "0 < n" and "n \<le> int (length s)"
    and "NUL \<notin> set (take (nat n) s)" and "\<not> numeric_shape (take (nat n) s)"
    and "take (nat n) s \<noteq> ''NULL''" and "take (nat n) s \<noteq> ''null''"
    and "f8 \<or> (take (nat n) s \<noteq> null_glyph \<and> bytewise_allocator smalloc2)"
  shows "\<exists>rest. quote_sql_literal smalloc2 (Ptr s) n f8 e =
           Inr (Fresh (wrapped SQUOTE (take (nat n) s) @ [NUL] @ rest), n + 2)"
proof -
  have scan: "literal_scan f8 (Ptr s) 0 (int (nat n)) False = Inr True"
    by (rule literal_scan_found) (use assms in \<open>auto simp: numeric_shape_def\<close>)
  have nw: "n = 4 \<Longrightarrow> is_null_word (Ptr s) = Inr False"
    using is_null_word_field[of s] assms by auto
  have gl: "\<not> f8 \<and> n = 3 \<Longrightarrow> strncmp_eq (Ptr s) 0 null_glyph = Inr False"
    using glyph_test_field[of s] assms(2,7) by auto
  obtain rest where "quote_wrap smalloc2 SQUOTE f8 (Ptr s) n =
      Inr (Fresh (wrapped SQUOTE (take (nat n) s) @ [NUL] @ rest), n + 2)"
    using quote_wrap_text[of n s f8 smalloc2 SQUOTE] assms by auto
  then have "quote_sql_literal smalloc2 (Ptr s) n f8 e =
      Inr (Fresh (wrapped SQUOTE (take (nat n) s) @ [NUL] @ rest), n + 2)"
    using scan assms(1) nw gl
    by (cases "n = 4"; cases "\<not> f8 \<and> n = 3") (auto simp: quote_sql_literal_def)
  then show ?thesis by blast
qed

lemma squote_not_glyph: "SQUOTE \<in> set xs \<Longrightarrow> xs \<noteq> null_glyph"
  by (auto simp: null_glyph_def SQUOTE_def)

lemma squote_not_numeric_char: "\<not> (is_digit SQUOTE \<or> SQUOTE = CHR ''.'')"
  by (simp add: is_digit_def SQUOTE_def)

lemma quote_not_numeric: "SQUOTE \<in> set xs \<Longrightarrow> \<not> numeric_shape xs"
  using squote_not_numeric_char unfolding numeric_shape_def by blast

lemma length_wrapped: "length (wrapped q xs) = length xs + count_list xs q + 2"
  by (simp add: wrapped_def length_doubled)

lemma bytewise_zero_fill: "bytewise_allocator zero_fill"
  by (simp add: bytewise_allocator_def zero_fill_def utf8charlen_def NUL_def)

text \<open>Claim C1 fails on the code by a slip in the length. For every field that contains
  at least one double quote, \<^verbatim>\<open>csv_format\<close> returns a buffer of its own that holds the field
  between two double quotes with every double quote of the field doubled; for every field
  that contains at least one single quote (and no NUL byte), \<^verbatim>\<open>quote_sql_literal\<close> does the
  same with single quotes. The text in the buffer is \<open>original_length + quote_count + 2\<close>
  bytes long, and the length reported through \<^verbatim>\<open>slen\<close> is \<open>original_length + 2\<close>: the copy
  loop adds the size of each character to \<^verbatim>\<open>*slen\<close> (lines 87 and 255) and not the quote
  that lines 84 and 252 put in front of it. The length reported is short by the number
  of quotes in the field, so it is neither the length of the text nor the value that the
  claim gives. (With force-8-bit mode off this is shown for fields made of whole UTF-8
  characters and an allocator whose new buffers hold one-byte characters, since the copy
  loop takes the size of each step from the byte at the write position.)\<close>

theorem quoting_reports_short_length:
  assumes "0 < n" and "n \<le> int (length s)" and "fld = take (nat n) s"
    and "f8 \<or> (utf8_chars fld \<and> bytewise_allocator smalloc2)"
  shows "(DQUOTE \<in> set fld \<longrightarrow>
            (\<exists>rest. csv_format smalloc2 (Ptr s) n f8 e =
                      Inr (Fresh (wrapped DQUOTE fld @ [NUL] @ rest), n + 2)) \<and>
            int (length (wrapped DQUOTE fld)) = n + 2 + int (count_list fld DQUOTE) \<and>
            n + 2 < int (length (wrapped DQUOTE fld)) \<and>
            n + 2 \<noteq> n + 2 * int (count_list fld DQUOTE) + 2) \<and>
         (SQUOTE \<in> set fld \<and> NUL \<notin> set fld \<longrightarrow>
            (\<exists>rest. quote_sql_literal smalloc2 (Ptr s) n f8 e =
                      Inr (Fresh (wrapped SQUOTE fld @ [NUL] @ rest), n + 2)) \<and>
            int (length (wrapped SQUOTE fld)) = n + 2 + int (count_list fld SQUOTE) \<and>
            n + 2 < int (length (wrapped SQUOTE fld)) \<and>
            n + 2 \<noteq> n + 2 * int (count_list fld SQUOTE) + 2)"
proof -
  have len: "int (length fld) = n" using assms(1,2,3) by simp
  have A: "(\<exists>rest. csv_format smalloc2 (Ptr s) n f8 e =
                      Inr (Fresh (wrapped DQUOTE fld @ [NUL] @ rest), n + 2)) \<and>
            int (length (wrapped DQUOTE fld)) = n + 2 + int (count_list fld DQUOTE) \<and>
            n + 2 < int (length (wrapped DQUOTE fld)) \<and>
            n + 2 \<noteq> n + 2 * int (count_list fld DQUOTE) + 2"
    if dq: "DQUOTE \<in> set fld"
  proof -
    have sp: "\<exists>c \<in> set (take (nat n) s). c \<in> {DQUOTE, CHR '','', TAB, CR, LF}"
      using dq assms(3) by auto
    have md: "f8 \<or> (utf8_chars (take (nat n) s) \<and> bytewise_allocator smalloc2)"
      using assms(3,4) by simp
    have cnt: "0 < count_list fld DQUOTE" using dq count_list_0_iff[of fld DQUOTE] by auto
    from csv_format_quotes[OF assms(1,2) sp md, of e] cnt len
    show ?thesis unfolding assms(3) by (simp add: length_wrapped)
  qed
  have B: "(\<exists>rest. quote_sql_literal smalloc2 (Ptr s) n f8 e =
                      Inr (Fresh (wrapped SQUOTE fld @ [NUL] @ rest), n + 2)) \<and>
            int (length (wrapped SQUOTE fld)) = n + 2 + int (count_list fld SQUOTE) \<and>
            n + 2 < int (length (wrapped SQUOTE fld)) \<and>
            n + 2 \<noteq> n + 2 * int (count_list fld SQUOTE) + 2"
    if sq: "SQUOTE \<in> set fld \<and> NUL \<notin> set fld"
  proof -
    have nw: "take (nat n) s \<noteq> ''NULL''" "take (nat n) s \<noteq> ''null''"
      using sq assms(3) by (auto simp: SQUOTE_def)
    have nn: "NUL \<notin> set (take (nat n) s)" and ns: "\<not> numeric_shape (take (nat n) s)"
      using sq assms(3) quote_not_numeric by auto
    have md: "f8 \<or> (take (nat n) s \<noteq> null_glyph \<and> bytewise_allocator smalloc2)"
      using sq assms(3,4) squote_not_glyph by auto
    have cnt: "0 < count_list fld SQUOTE" using sq count_list_0_iff[of fld SQUOTE] by auto
    from quote_sql_literal_wraps[OF assms(1,2) nn ns nw md, of e] cnt len
    show ?thesis unfolding assms(3) by (simp add: length_wrapped)
  qed
  from A B show ?thesis by blast
qed

text \<open>The theorem at the fields \<^verbatim>\<open>a"b\<close> and \<^verbatim>\<open>it's\<close>, and what the callers make of the
  length: \<^verbatim>\<open>process_item\<close> writes \<^verbatim>\<open>*slen\<close> bytes of the buffer (lines 524 and 625), so
  the closing quote of the value is not written: the CSV export of the one-cell table
  \<^verbatim>\<open>a"b\<close> is the line \<^verbatim>\<open>"a""b\<close>, and the \<^verbatim>\<open>INSERT\<close> statement for the cell \<^verbatim>\<open>it's\<close> ends
  in \<^verbatim>\<open>VALUES('it''s);\<close>.\<close>

theorem quoting_reports_short_length_witness:
  "csv_format zero_fill (Ptr [CHR ''a'', DQUOTE, CHR ''b'', NUL]) 3 True False =
     Inr (Fresh [DQUOTE, CHR ''a'', DQUOTE, DQUOTE, CHR ''b'', DQUOTE, NUL, NUL, NUL], 5) \<and>
   length (wrapped DQUOTE [CHR ''a'', DQUOTE, CHR ''b'']) = 6 \<and>
   quote_sql_literal zero_fill (Ptr (''it'' @ [SQUOTE] @ ''s'' @ [NUL])) 4 False False =
     Inr (Fresh ([SQUOTE] @ ''it'' @ [SQUOTE, SQUOTE] @ ''s'' @ [SQUOTE] @
                 [NUL, NUL, NUL, NUL]), 6) \<and>
   length (wrapped SQUOTE (''it'' @ [SQUOTE] @ ''s'')) = 7 \<and>
   export_data plain_helpers no_search quoted_lines 0 demo_opts no_selection bare_desc 0 0 [] 0 0
     NullP cmd_CopyAllLines CLIPBOARD_FORMAT_CSV =
     Inr (True, [DQUOTE, CHR ''a'', DQUOTE, DQUOTE, CHR ''b'', LF], 0) \<and>
   process_item plain_helpers (commented_state\<lparr>xmin := - 1, format := CLIPBOARD_FORMAT_INSERT\<rparr>)
     0 (CHR ''d'') (Ptr (''it'' @ [SQUOTE] @ ''s'' @ [NUL])) 4 0 False =
     Inr (True,
          commented_state\<lparr>xmin := - 1, format := CLIPBOARD_FORMAT_INSERT, colno := 1,
            fp := ''INSERT INTO orders VALUES('' @ [SQUOTE] @ ''it'' @ [SQUOTE, SQUOTE] @ ''s''\<rparr>,
          0)"
proof -
  have runs:
    "csv_format zero_fill (Ptr [CHR ''a'', DQUOTE, CHR ''b'', NUL]) 3 True False =
       Inr (Fresh [DQUOTE, CHR ''a'', DQUOTE, DQUOTE, CHR ''b'', DQUOTE, NUL, NUL, NUL], 5)"
    "quote_sql_literal zero_fill (Ptr (''it'' @ [SQUOTE] @ ''s'' @ [NUL])) 4 False False =
       Inr (Fresh ([SQUOTE] @ ''it'' @ [SQUOTE, SQUOTE] @ ''s'' @ [SQUOTE] @
                   [NUL, NUL, NUL, NUL]), 6)"
    "export_data plain_helpers no_search quoted_lines 0 demo_opts no_selection bare_desc 0 0 [] 0 0
       NullP cmd_CopyAllLines CLIPBOARD_FORMAT_CSV =
       Inr (True, [DQUOTE, CHR ''a'', DQUOTE, DQUOTE, CHR ''b'', LF], 0)"
    "process_item plain_helpers (commented_state\<lparr>xmin := - 1, format := CLIPBOARD_FORMAT_INSERT\<rparr>)
       0 (CHR ''d'') (Ptr (''it'' @ [SQUOTE] @ ''s'' @ [NUL])) 4 0 False =
       Inr (True,
            commented_state\<lparr>xmin := - 1, format := CLIPBOARD_FORMAT_INSERT, colno := 1,
              fp := ''INSERT INTO orders VALUES('' @ [SQUOTE] @ ''it'' @ [SQUOTE, SQUOTE] @ ''s''\<rparr>,
            0)"
    by code_simp+
  have u: "utf8_chars (take 4 (''it'' @ [SQUOTE] @ ''s'' @ [NUL]))"
    by code_simp
  from quoting_reports_short_length[of 3 "[CHR ''a'', DQUOTE, CHR ''b'', NUL]"
         "take 3 [CHR ''a'', DQUOTE, CHR ''b'', NUL]" True zero_fill False]
       quoting_reports_short_length[of 4 "''it'' @ [SQUOTE] @ ''s'' @ [NUL]"
         "take 4 (''it'' @ [SQUOTE] @ ''s'' @ [NUL])" False zero_fill False]
       u bytewise_zero_fill runs
  show ?thesis
    by (simp add: DQUOTE_def SQUOTE_def NUL_def)
qed

lemma take_eq_lengthD:
  assumes "take k s = xs" and "length xs = k"
  shows "k \<le> length s"
proof -
  have "min (length s) k = k" using assms by (metis length_take)
  then show ?thesis by simp
qed

lemma numeric_not_null_word:
  "numeric_shape xs \<Longrightarrow> xs \<noteq> ''NULL'' \<and> xs \<noteq> ''null'' \<and> xs \<noteq> null_glyph"
  by (auto simp: numeric_shape_def is_digit_def null_glyph_def)

lemma quote_sql_literal_numeric:
  assumes "0 < n" and "n < int (length s)" and "numeric_shape (take (nat n) s)"
  shows "quote_sql_literal smalloc2 (Ptr s) n f8 e = Inr (Same, n)"
proof -
  have scan: "literal_scan f8 (Ptr s) 0 (int (nat n)) False = Inr False"
    by (rule literal_scan_numeric) (use assms in \<open>auto simp: numeric_shape_def\<close>)
  have nw: "n = 4 \<Longrightarrow> is_null_word (Ptr s) = Inr False"
    using is_null_word_field[of s] assms numeric_not_null_word[OF assms(3)] by auto
  have gl: "n = 3 \<Longrightarrow> strncmp_eq (Ptr s) 0 null_glyph = Inr False"
    using glyph_test_field[of s] assms numeric_not_null_word[OF assms(3)] by auto
  show ?thesis
    using scan assms(1) nw gl
    by (cases "n = 4"; cases "n = 3"; cases f8) (simp_all add: quote_sql_literal_def)
qed

text \<open>Claim C6, as amended. \<^verbatim>\<open>quote_sql_literal\<close> maps an empty field (length 0) to the
  4-byte text \<^verbatim>\<open>NULL\<close> when the null-as-empty flag is set and to the 2-byte text \<^verbatim>\<open>''\<close>
  otherwise; it returns a 4-byte field equal to \<^verbatim>\<open>NULL\<close> or \<^verbatim>\<open>null\<close> unchanged; when
  force-8-bit mode is off it maps the 3-byte NULL glyph to \<^verbatim>\<open>NULL\<close>; it returns a field
  of digits with at most one decimal point unchanged; and a field without NUL byte that
  matches no earlier case and is not of this numeric shape comes back in a buffer of its
  own, between single quotes and with its single quotes doubled. The last part holds in
  force-8-bit mode (where the glyph is such a field); with force-8-bit mode off it holds
  when the bytes that the allocator leaves in the new buffer are one-byte characters.\<close>

theorem quote_sql_literal_cases:
  "quote_sql_literal smalloc2 str 0 f8 True = Inr (Fresh (''NULL'' @ [NUL]), 4) \<and>
   quote_sql_literal smalloc2 str 0 f8 False = Inr (Fresh [SQUOTE, SQUOTE, NUL], 2) \<and>
   (take 4 s = ''NULL'' \<or> take 4 s = ''null'' \<longrightarrow>
      quote_sql_literal smalloc2 (Ptr s) 4 f8 e = Inr (Same, 4)) \<and>
   (\<not> f8 \<and> take 3 s = null_glyph \<longrightarrow>
      quote_sql_literal smalloc2 (Ptr s) 3 f8 e = Inr (Fresh (''NULL'' @ [NUL]), 4)) \<and>
   (0 < n \<and> n < int (length s) \<and> numeric_shape (take (nat n) s) \<longrightarrow>
      quote_sql_literal smalloc2 (Ptr s) n f8 e = Inr (Same, n)) \<and>
   (0 < n \<and> n \<le> int (length s) \<and> NUL \<notin> set (take (nat n) s) \<and>
    \<not> numeric_shape (take (nat n) s) \<and>
    take (nat n) s \<noteq> ''NULL'' \<and> take (nat n) s \<noteq> ''null'' \<and>
    (f8 \<or> (take (nat n) s \<noteq> null_glyph \<and> bytewise_allocator smalloc2)) \<longrightarrow>
      returns_fresh_text (quote_sql_literal smalloc2 (Ptr s) n f8 e)
        (wrapped SQUOTE (take (nat n) s)))"
proof (intro conjI impI)
  show "quote_sql_literal smalloc2 str 0 f8 True = Inr (Fresh (''NULL'' @ [NUL]), 4)"
    by (simp add: quote_sql_literal_def sstrdup_def)
  show "quote_sql_literal smalloc2 str 0 f8 False = Inr (Fresh [SQUOTE, SQUOTE, NUL], 2)"
    by (simp add: quote_sql_literal_def sstrdup_def)
next
  assume a: "take 4 s = ''NULL'' \<or> take 4 s = ''null''"
  then have "4 \<le> length s" by (auto dest: take_eq_lengthD)
  from is_null_word_field[OF this] a
  show "quote_sql_literal smalloc2 (Ptr s) 4 f8 e = Inr (Same, 4)"
    by (simp add: quote_sql_literal_def)
next
  assume a: "\<not> f8 \<and> take 3 s = null_glyph"
  then have "3 \<le> length s" by (auto dest: take_eq_lengthD simp: null_glyph_def)
  from glyph_test_field[OF this] a
  show "quote_sql_literal smalloc2 (Ptr s) 3 f8 e = Inr (Fresh (''NULL'' @ [NUL]), 4)"
    by (simp add: quote_sql_literal_def sstrdup_def)
next
  assume "0 < n \<and> n < int (length s) \<and> numeric_shape (take (nat n) s)"
  then show "quote_sql_literal smalloc2 (Ptr s) n f8 e = Inr (Same, n)"
    using quote_sql_literal_numeric by blast
next
  assume a: "0 < n \<and> n \<le> int (length s) \<and> NUL \<notin> set (take (nat n) s) \<and>
    \<not> numeric_shape (take (nat n) s) \<and>
    take (nat n) s \<noteq> ''NULL'' \<and> take (nat n) s \<noteq> ''null'' \<and>
    (f8 \<or> (take (nat n) s \<noteq> null_glyph \<and> bytewise_allocator smalloc2))"
  then obtain rest where "quote_sql_literal smalloc2 (Ptr s) n f8 e =
      Inr (Fresh (wrapped SQUOTE (take (nat n) s) @ [NUL] @ rest), n + 2)"
    using quote_sql_literal_wraps[of n s f8 smalloc2 e] by blast
  then show "returns_fresh_text (quote_sql_literal smalloc2 (Ptr s) n f8 e)
        (wrapped SQUOTE (take (nat n) s))"
    by (auto intro: returns_fresh_textI)
qed

text \<open>Claim C6 as stated fails in force-8-bit mode: there the test for the NULL glyph is
  switched off (line 205), and the glyph is quoted like any other text.\<close>

theorem quote_sql_literal_glyph_counterexample:
  "quote_sql_literal zero_fill (Ptr (null_glyph @ [NUL])) 3 True False =
     Inr (Fresh ([SQUOTE] @ null_glyph @ [SQUOTE] @ [NUL, NUL, NUL, NUL]), 5) \<and>
   quote_sql_literal zero_fill (Ptr (null_glyph @ [NUL])) 3 True False \<noteq>
     Inr (Fresh (''NULL'' @ [NUL]), 4)"
  by code_simp

theorem quote_sql_literal_cases_witness:
  "quote_sql_literal zero_fill (Ptr (''NULL'' @ [NUL])) 4 False False = Inr (Same, 4) \<and>
   quote_sql_literal zero_fill (Ptr (null_glyph @ [NUL])) 3 False False = Inr (Fresh (''NULL'' @ [NUL]), 4) \<and>
   numeric_shape (take 4 (''12.5'' @ [NUL])) \<and>
   quote_sql_literal zero_fill (Ptr (''12.5'' @ [NUL])) 4 False False = Inr (Same, 4) \<and>
   \<not> numeric_shape (take 2 (''ab'' @ [NUL])) \<and>
   returns_fresh_text (quote_sql_literal zero_fill (Ptr (''ab'' @ [NUL])) 2 True False)
     ([SQUOTE] @ ''ab'' @ [SQUOTE]) \<and>
   bytewise_allocator zero_fill \<and>
   returns_fresh_text (quote_sql_literal zero_fill (Ptr (''ab'' @ [NUL])) 2 False False)
     ([SQUOTE] @ ''ab'' @ [SQUOTE])"
  using quote_sql_literal_cases[of zero_fill NullP False "''NULL'' @ [NUL]" False 4]
        quote_sql_literal_cases[of zero_fill NullP False "null_glyph @ [NUL]" False 3]
        quote_sql_literal_cases[of zero_fill NullP False "''12.5'' @ [NUL]" False 4]
        quote_sql_literal_cases[of zero_fill NullP True "''ab'' @ [NUL]" False 2]
        quote_sql_literal_cases[of zero_fill NullP False "''ab'' @ [NUL]" False 2]
        bytewise_zero_fill
  by (simp add: numeric_shape_def is_digit_def null_glyph_def NUL_def wrapped_def doubled_def SQUOTE_def)

lemma poke_keeps:
  "poke buf p c = Inr buf' \<Longrightarrow> length buf' = length buf \<and> (1 \<le> p \<longrightarrow> buf' ! 0 = buf ! 0)"
  by (auto simp: poke_def split: if_splits)

lemma copy_chars_keeps:
  "copy_chars str j buf p k = Inr (j', buf', p') \<Longrightarrow> 1 \<le> p \<Longrightarrow>
   length buf' = length buf \<and> buf' ! 0 = buf ! 0 \<and> p \<le> p'"
proof (induction k arbitrary: j buf p)
  case 0
  then show ?case by simp
next
  case (Suc k)
  from Suc.prems(1) obtain c b1 where pk: "peek str j = Inr c" and po: "poke buf p c = Inr b1"
    and rec: "copy_chars str (j + 1) b1 (p + 1) k = Inr (j', buf', p')"
    by (auto split: sum.splits)
  from Suc.IH[OF rec] Suc.prems(2) poke_keeps[OF po] show ?case by auto
qed

lemma quote_loop_keeps:
  "quote_loop q f8 str j buf p slen' slen = Inr (buf', p', n') \<Longrightarrow> 1 \<le> p \<Longrightarrow>
   length buf' = length buf \<and> buf' ! 0 = buf ! 0 \<and> p \<le> p'"
proof (induction q f8 str j buf p slen' slen rule: quote_loop.induct)
  case (1 q f8 str j buf p slen' slen)
  show ?case
  proof (cases "slen' > 0")
    case False
    with "1.prems" show ?thesis by (simp add: quote_loop.simps)
  next
    case True
    have unf: "quote_loop q f8 str j buf p slen' slen =
        (case out_charlen f8 buf p of
           Inl e \<Rightarrow> Inl e
         | Inr sz \<Rightarrow>
             (case peek str j of
                Inl e \<Rightarrow> Inl e
              | Inr c \<Rightarrow>
                  (case dup_quote q c buf p of
                     Inl e \<Rightarrow> Inl e
                   | Inr (buf1, p1) \<Rightarrow>
                       (case copy_chars str j buf1 p1 (nat sz) of
                          Inl e \<Rightarrow> Inl e
                        | Inr (j2, buf2, p2) \<Rightarrow>
                            quote_loop q f8 str j2 buf2 p2 (slen' - sz) (slen + sz)))))"
      using True by (subst quote_loop.simps) simp
    from "1.prems"(1)[unfolded unf] obtain sz c buf1 p1 j2 buf2 p2 where
      oc: "out_charlen f8 buf p = Inr sz" and pk: "peek str j = Inr c" and
      st: "dup_quote q c buf p = Inr (buf1, p1)" and
      cc: "copy_chars str j buf1 p1 (nat sz) = Inr (j2, buf2, p2)" and
      rec: "quote_loop q f8 str j2 buf2 p2 (slen' - sz) (slen + sz) = Inr (buf', p', n')"
      by (auto split: sum.splits prod.splits)
    have s1: "length buf1 = length buf \<and> buf1 ! 0 = buf ! 0 \<and> p \<le> p1"
      using st "1.prems"(2) poke_keeps[of buf p q] by (auto simp: dup_quote_def split: if_splits sum.splits)
    then have p1: "1 \<le> p1" using "1.prems"(2) by simp
    have s2: "length buf2 = length buf1 \<and> buf2 ! 0 = buf1 ! 0 \<and> p1 \<le> p2"
      using copy_chars_keeps[OF cc p1] .
    then have p2: "1 \<le> p2" using p1 by simp
    have "length buf' = length buf2 \<and> buf' ! 0 = buf2 ! 0 \<and> p2 \<le> p'"
      using "1.IH" True oc pk st cc rec p2 by fastforce
    with s1 s2 show ?thesis by simp
  qed
qed

lemma quote_wrap_first:
  assumes "quote_wrap smalloc2 q f8 str n = Inr (r, n')"
  shows "\<exists>rest. r = Fresh (q # rest)"
proof -
  define buf where "buf = fresh_buffer smalloc2 (n * 2 + 2 + 1)"
  from assms obtain buf1 buf2 p slen2 buf3 buf4 where
    p0: "poke buf 0 q = Inr buf1" and
    lp: "quote_loop q f8 str 0 buf1 1 n 1 = Inr (buf2, p, slen2)" and
    p1: "poke buf2 p q = Inr buf3" and
    p2: "poke buf3 (p + 1) NUL = Inr buf4" and
    r: "r = Fresh buf4"
    unfolding quote_wrap_def buf_def[symmetric] by (auto split: sum.splits prod.splits)
  from p0 have b1: "buf1 \<noteq> [] \<and> buf1 ! 0 = q"
    by (auto simp: poke_def split: if_splits)
  from quote_loop_keeps[OF lp] have b2: "length buf2 = length buf1 \<and> buf2 ! 0 = buf1 ! 0 \<and> 1 \<le> p"
    by simp
  from poke_keeps[OF p1] b2 have b3: "length buf3 = length buf2 \<and> buf3 ! 0 = buf2 ! 0" by simp
  from poke_keeps[OF p2] b2 have b4: "length buf4 = length buf3 \<and> buf4 ! 0 = buf3 ! 0" by simp
  from b1 b2 b3 b4 have "buf4 \<noteq> [] \<and> buf4 ! 0 = q" by auto
  then have "buf4 = q # tl buf4" by (cases buf4) auto
  with r show ?thesis by blast
qed

text \<open>Claim C8: \<^verbatim>\<open>quote_sql_identifier\<close> is idempotent. For every identifier whose first
  byte is a double quote it returns the pointer it was given and leaves the length as it
  was; and every buffer that the function itself returns after quoting starts with a
  double quote, so that quoting it again returns it unchanged.\<close>

theorem quote_sql_identifier_idempotent:
  "quote_sql_identifier smalloc2 (Ptr (DQUOTE # rest)) slen f8 = Inr (Same, slen) \<and>
   (quote_sql_identifier smalloc2 str n f8 = Inr (Fresh buf, n') \<longrightarrow>
      quote_sql_identifier smalloc2' (Ptr buf) n' f8' = Inr (Same, n'))"
proof (intro conjI impI)
  show first: "\<And>rest slen smalloc2 f8.
      quote_sql_identifier smalloc2 (Ptr (DQUOTE # rest)) slen f8 = Inr (Same, slen)"
    by (simp add: quote_sql_identifier_def peek_def)
  assume a: "quote_sql_identifier smalloc2 str n f8 = Inr (Fresh buf, n')"
  then have "quote_wrap smalloc2 DQUOTE f8 str n = Inr (Fresh buf, n')"
    by (auto simp: quote_sql_identifier_def split: sum.splits if_splits)
  from quote_wrap_first[OF this] obtain rest where "buf = DQUOTE # rest" by auto
  then show "quote_sql_identifier smalloc2' (Ptr buf) n' f8' = Inr (Same, n')"
    using first by simp
qed

theorem quote_sql_identifier_idempotent_witness:
  "quote_sql_identifier zero_fill (Ptr (''Order Total'' @ [NUL])) 11 True =
     Inr (Fresh ([DQUOTE] @ ''Order Total'' @ [DQUOTE] @ replicate 12 NUL), 13) \<and>
   quote_sql_identifier zero_fill (Ptr ([DQUOTE] @ ''Order Total'' @ [DQUOTE] @ replicate 12 NUL)) 13 True =
     Inr (Same, 13)"
proof -
  have run: "quote_sql_identifier zero_fill (Ptr (''Order Total'' @ [NUL])) 11 True =
     Inr (Fresh ([DQUOTE] @ ''Order Total'' @ [DQUOTE] @ replicate 12 NUL), 13)"
    by code_simp
  from quote_sql_identifier_idempotent[of zero_fill "[]" 0 True "Ptr (''Order Total'' @ [NUL])" 11
      "[DQUOTE] @ ''Order Total'' @ [DQUOTE] @ replicate 12 NUL" 13 zero_fill True] run
  show ?thesis by simp
qed


section \<open>Properties of process_item\<close>

lemma out_fst: "fst (out h st bytes) = (fst st)\<lparr>fp := fst (h_write h (fp (fst st)) bytes)\<rparr>"
  by (simp add: out_def split: prod.splits)

lemma out_colno [simp]: "colno (fst (out h st bytes)) = colno (fst st)"
  by (simp add: out_fst)

lemma out_colnoD: "out h st bytes = (es', e') \<Longrightarrow> colno es' = colno (fst st)"
  using out_colno[of h st bytes] by simp

lemma insert_names_colno:
  "insert_names h names cols st i is_first = Inr st' \<Longrightarrow> colno (fst st') = colno (fst st)"
proof (induction h names cols st i is_first rule: insert_names.induct)
  case (1 h names cols st i is_first)
  show ?case
  proof (cases "i < cols")
    case False
    with "1.prems" show ?thesis by (subst (asm) insert_names.simps) simp
  next
    case True
    show ?thesis
    proof (cases "aget names i")
      case (Inl e)
      with "1.prems" True show ?thesis by (subst (asm) insert_names.simps) simp
    next
      case (Inr nm)
      show ?thesis
      proof (cases "nm = NullP")
        case nmT: True
        with "1.prems" True Inr show ?thesis by (subst (asm) insert_names.simps) simp
      next
        case nmF: False
        show ?thesis
        proof (cases "c_str nm")
          case cl: (Inl e)
          with "1.prems" True Inr nmF show ?thesis by (subst (asm) insert_names.simps) simp
        next
          case cr: (Inr s)
          from "1.prems" True Inr nmF cr
          have rec: "insert_names h names cols
                       (out h (if \<not> is_first then out h st '', '' else st) s) (i + 1) False = Inr st'"
            by (subst (asm) insert_names.simps) simp
          from "1.IH"[OF True Inr nmF cr rec] show ?thesis by simp
        qed
      qed
    qed
  qed
qed

lemma comment_names_colno:
  "comment_names h names cols ind cnt st i loc = Inr st' \<Longrightarrow> colno (fst st') = colno (fst st)"
proof (induction h names cols ind cnt st i loc rule: comment_names.induct)
  case (1 h names cols ind cnt st i loc)
  show ?case
  proof (cases "i < cols")
    case False
    with "1.prems" show ?thesis by (subst (asm) comment_names.simps) simp
  next
    case True
    show ?thesis
    proof (cases "aget names i")
      case (Inl e)
      with "1.prems" True show ?thesis by (subst (asm) comment_names.simps) simp
    next
      case (Inr nm)
      show ?thesis
      proof (cases "nm = NullP")
        case nmT: True
        with "1.prems" True Inr show ?thesis by (subst (asm) comment_names.simps) simp
      next
        case nmF: False
        show ?thesis
        proof (cases "c_str nm")
          case cl: (Inl e)
          with "1.prems" True Inr nmF show ?thesis by (subst (asm) comment_names.simps) simp
        next
          case cr: (Inr s)
          from "1.prems" True Inr nmF cr
          have rec: "comment_names h names cols ind cnt
                      (out h
                         (out h
                            (if loc > 0
                             then out h st (replicate (nat \<bar>ind\<bar>) (CHR '' ''))
                             else st)
                            s)
                         ((if loc < cnt - 1 then '','' else '')'') @
                          [TAB, TAB] @ '' -- '' @ printf_d (loc + 1) @ ''.'' @ [LF]))
                      (i + 1) (loc + 1) = Inr st'"
            by (subst (asm) comment_names.simps) simp
          from "1.IH"[OF True Inr nmF cr rec] show ?thesis by simp
        qed
      qed
    qed
  qed
qed

lemma insert_header_colno:
  assumes "insert_header h es = Inr st'"
  shows "colno (fst st') = colno es"
proof -
  from assms obtain tn st where
    st: "(if colnames es \<noteq> None then
                   (if format es = CLIPBOARD_FORMAT_INSERT then
                      (case insert_names h (colnames es) (columns es)
                              (out h (out h (out h (es, 0) ''INSERT INTO '') tn) ''('') 0 True of
                         Inl e \<Rightarrow> Inl e
                       | Inr st \<Rightarrow> Inr (out h st '')''))
                    else
                      (case count_names (colnames es) (columns es) 0 0 of
                         Inl e \<Rightarrow> Inl e
                       | Inr cnt \<Rightarrow>
                           comment_names h (colnames es) (columns es)
                             (if force8bit es then int (length tn) + 1 + 12
                              else h_utf_string_dsplen h tn + 1 + 12)
                             cnt
                             (out h (out h (out h (es, 0) ''INSERT INTO '') tn) ''('') 0 0))
                 else Inr (out h (out h (es, 0) ''INSERT INTO '') tn)) = Inr st"
    and st': "st' = out h st (if format es = CLIPBOARD_FORMAT_INSERT then '' VALUES('' else ''   VALUES('')"
    unfolding insert_header_def by (simp split: sum.splits)
  have "colno (fst st) = colno es"
  proof (cases "colnames es \<noteq> None")
    case False
    with st show ?thesis by auto
  next
    case True
    show ?thesis
    proof (cases "format es = CLIPBOARD_FORMAT_INSERT")
      case fT: True
      with st True obtain st0 where
        "insert_names h (colnames es) (columns es)
           (out h (out h (out h (es, 0) ''INSERT INTO '') tn) ''('') 0 True = Inr st0"
        and "st = out h st0 '')''"
        by (simp split: sum.splits)
      then show ?thesis using insert_names_colno by fastforce
    next
      case fF: False
      with st True obtain cnt where
        "comment_names h (colnames es) (columns es)
           (if force8bit es then int (length tn) + 1 + 12
            else h_utf_string_dsplen h tn + 1 + 12)
           cnt (out h (out h (out h (es, 0) ''INSERT INTO '') tn) ''('') 0 0 = Inr st"
        by (simp split: sum.splits)
      then show ?thesis using comment_names_colno by fastforce
    qed
  qed
  with st' show ?thesis by simp
qed

lemma insert_separator_colno:
  assumes "insert_separator h es st = Inr st'"
  shows "colno (fst st') = colno (fst st)"
  using assms unfolding insert_separator_def
  by (simp split: sum.splits if_splits) auto

lemma insert_head_colno:
  assumes "insert_head h es = Inr st2"
  shows "colno (fst st2) = colno es"
proof -
  from assms obtain st1 where
    a: "(if colno es = 0 then insert_header h es else Inr (es, 0)) = Inr st1" and
    b: "insert_separator h es st1 = Inr st2"
    unfolding insert_head_def by (simp split: sum.splits)
  from a have "colno (fst st1) = colno es"
    by (auto split: if_splits dest: insert_header_colno)
  with insert_separator_colno[OF b] show ?thesis by simp
qed

lemma insert_value_colno:
  assumes "insert_value h es field sz = Inr (r, es', errno')"
  shows "colno es' = colno es + 1"
proof -
  from assms obtain st2 bytes es3 where
    a: "insert_head h es = Inr st2" and
    c: "out h st2 bytes = (es3, errno')" and
    d: "es' = es3\<lparr>colno := colno es3 + 1\<rparr>"
    unfolding insert_value_def by (simp split: sum.splits prod.splits)
  with insert_head_colno[OF a] out_colnoD[OF c] d show ?thesis by simp
qed

lemma store_colname_colno:
  "store_colname es field q sz = Inr es' \<Longrightarrow> colno es' = colno es + 1"
  unfolding store_colname_def by (simp split: sum.splits) auto

lemma insert_colname_colno:
  "insert_colname h es field sz = Inr (r, es', errno') \<Longrightarrow> colno es' = colno es + 1"
  unfolding insert_colname_def
  by (simp split: sum.splits prod.splits) (auto dest: store_colname_colno)

lemma dsv_separator_colno [simp]: "colno (fst (dsv_separator h es)) = colno es"
  by (simp add: dsv_separator_def)

lemma dsv_value_colno:
  assumes "dsv_value h es field q sz = Inr (es', errno')"
  shows "colno es' = colno es"
proof (cases "copy_line_extended es")
  case True
  with assms obtain bytes where "out h (es, 0) bytes = (es', errno')"
    unfolding dsv_value_def by (simp split: sum.splits)
  from out_colnoD[OF this] show ?thesis by simp
next
  case False
  define st1 where "st1 = dsv_separator h es"
  have c1: "colno (fst st1) = colno es" by (simp add: st1_def)
  from assms False have "(if resolve field q \<noteq> NullP \<and> snd st1 = 0 then
               (case read_bytes (resolve field q) sz of
                  Inl e \<Rightarrow> Inl e
                | Inr bytes \<Rightarrow> Inr (out h (fst st1, 0) bytes))
             else Inr (fst st1, snd st1)) = Inr (es', errno')"
    unfolding dsv_value_def st1_def[symmetric] by (simp add: case_prod_beta)
  then have "colno es' = colno (fst st1)"
    by (auto split: if_splits sum.splits dest: out_colnoD)
  with c1 show ?thesis by simp
qed

lemma format_cases:
  "INSERT_FORMAT_TYPE f \<or> f = CLIPBOARD_FORMAT_TEXT \<or> DSV_FORMAT_TYPE f"
  by (cases f) (simp_all add: INSERT_FORMAT_TYPE_def DSV_FORMAT_TYPE_def)

lemma format_disjoint:
  "\<not> (INSERT_FORMAT_TYPE f \<and> DSV_FORMAT_TYPE f)"
  "\<not> (INSERT_FORMAT_TYPE f \<and> f = CLIPBOARD_FORMAT_TEXT)"
  "\<not> (DSV_FORMAT_TYPE f \<and> f = CLIPBOARD_FORMAT_TEXT)"
  by (cases f; simp add: INSERT_FORMAT_TYPE_def DSV_FORMAT_TYPE_def)+

lemma process_item_skips:
  assumes "outside_range es xpos"
  shows "process_item h es errno0 (CHR ''d'') field sz xpos is_colname =
           Inr (True, es, if DSV_FORMAT_TYPE (format es) then errno0 else 0)"
  using assms format_cases[of "format es"] format_disjoint[of "format es"]
  by (auto simp: process_item_def process_item_insert_def process_item_text_def
                 process_item_dsv_def)

lemma process_item_text_writes:
  assumes "\<not> outside_range es xpos" and "format es = CLIPBOARD_FORMAT_TEXT"
  shows "process_item h es errno0 (CHR ''d'') field sz xpos is_colname =
           (case read_bytes field sz of
              Inl e \<Rightarrow> Inl e
            | Inr bytes \<Rightarrow>
                (case out h (es, 0) bytes of (es', errno') \<Rightarrow> Inr (errno' = 0, es', errno')))"
  using assms
  by (simp add: process_item_def process_item_text_def INSERT_FORMAT_TYPE_def
           split: sum.splits prod.splits)

lemma process_item_counts:
  assumes "\<not> outside_range es xpos" and "format es \<noteq> CLIPBOARD_FORMAT_TEXT"
    and "process_item h es errno0 (CHR ''d'') field sz xpos is_colname = Inr (r, es', errno')"
  shows "colno es' = colno es + 1"
proof (cases "INSERT_FORMAT_TYPE (format es)")
  case True
  show ?thesis
  proof (cases is_colname)
    case ic: True
    with assms True obtain r' where "insert_colname h es field sz = Inr (r', es', errno')"
      by (auto simp: process_item_def process_item_insert_def split: sum.splits option.splits)
    then show ?thesis by (rule insert_colname_colno)
  next
    case ic: False
    with assms True obtain r' where "insert_value h es field sz = Inr (r', es', errno')"
      by (auto simp: process_item_def process_item_insert_def split: sum.splits option.splits)
    then show ?thesis by (rule insert_value_colno)
  qed
next
  case False
  with assms(2) format_cases[of "format es"] have dsv: "DSV_FORMAT_TYPE (format es)" by simp
  from assms False dsv obtain r' where
    pd: "process_item_dsv h es errno0 (CHR ''d'') field sz xpos is_colname = Inr (r', es', errno')"
    by (auto simp: process_item_def split: sum.splits option.splits)
  from pd assms(1) obtain field1 sz1 q sz2 where
    rest: "(if copy_line_extended es \<and> is_colname then
                       (case store_colname es field1 q sz2 of
                          Inl e \<Rightarrow> Inl e
                        | Inr es' \<Rightarrow> Inr (Some True, es', errno0))
                     else
                       (case dsv_value h es field1 q sz2 of
                          Inl e \<Rightarrow> Inl e
                        | Inr (es', errno') \<Rightarrow>
                            Inr (None, es'\<lparr>colno := colno es' + 1\<rparr>, errno'))) = Inr (r', es', errno')"
    unfolding process_item_dsv_def by (simp split: sum.splits prod.splits)
  show ?thesis
  proof (cases "copy_line_extended es \<and> is_colname")
    case True
    with rest have "store_colname es field1 q sz2 = Inr es'" by (simp split: sum.splits)
    then show ?thesis by (rule store_colname_colno)
  next
    case False
    with rest obtain es2 where "dsv_value h es field1 q sz2 = Inr (es2, errno')"
      and "es' = es2\<lparr>colno := colno es2 + 1\<rparr>"
      by (auto split: sum.splits)
    with dsv_value_colno show ?thesis by fastforce
  qed
qed

text \<open>The routines that \<^verbatim>\<open>process_item\<close> applies to the field of a data token return
  for every field that lies inside its row, and what they return can be written.\<close>

lemma utf8charlen_space [simp]: "utf8charlen (CHR '' '') = 1"
  by (simp add: utf8charlen_def)

lemma utf8_chars_space: "utf8_chars (CHR '' '' # cs) = utf8_chars cs"
  by (simp add: utf8_chars.simps)

lemma trim_lead_returns:
  "0 \<le> i \<Longrightarrow> 0 \<le> sz \<Longrightarrow> i + sz < int (length s) \<Longrightarrow>
   \<exists>m. 0 \<le> m \<and> m \<le> sz \<and> trim_lead (Ptr s) i sz = Inr (i + m, sz - m) \<and>
       (m < sz \<longrightarrow> s ! nat (i + m) \<noteq> CHR '' '') \<and>
       (utf8_chars (take (nat sz) (drop (nat i) s)) \<longrightarrow>
          utf8_chars (take (nat (sz - m)) (drop (nat (i + m)) s)))"
proof (induction "Ptr s" i sz rule: trim_lead.induct)
  case (1 i sz)
  let ?c = "s ! nat i"
  from "1.prems" have lt: "nat i < length s" and pk: "peek (Ptr s) i = Inr ?c"
    by (auto simp: peek_def)
  show ?case
  proof (cases "?c = CHR '' '' \<and> sz > 0")
    case False
    have "trim_lead (Ptr s) i sz = Inr (i + 0, sz - 0)"
      using pk False by (subst trim_lead.simps) auto
    moreover have "0 < sz \<longrightarrow> s ! nat (i + 0) \<noteq> CHR '' ''" using False by auto
    ultimately show ?thesis using "1.prems"(2) by (intro exI[of _ 0]) simp
  next
    case True
    from "1.hyps"[OF pk True] "1.prems" True
    obtain m where m: "0 \<le> m" "m \<le> sz - 1"
      "trim_lead (Ptr s) (i + 1) (sz - 1) = Inr (i + 1 + m, sz - 1 - m)"
      "m < sz - 1 \<longrightarrow> s ! nat (i + 1 + m) \<noteq> CHR '' ''"
      "utf8_chars (take (nat (sz - 1)) (drop (nat (i + 1)) s)) \<longrightarrow>
          utf8_chars (take (nat (sz - 1 - m)) (drop (nat (i + 1 + m)) s))"
      by auto
    have d: "drop (nat i) s = ?c # drop (nat (i + 1)) s"
      using lt "1.prems"(1) by (simp add: Cons_nth_drop_Suc nat_add_distrib)
    obtain k where k: "nat sz = Suc k" "nat (sz - 1) = k" using True by (cases "nat sz") auto
    have fld: "take (nat sz) (drop (nat i) s) = CHR '' '' # take (nat (sz - 1)) (drop (nat (i + 1)) s)"
      using True by (simp add: d k)
    have r: "trim_lead (Ptr s) i sz = Inr (i + (m + 1), sz - (m + 1))"
      using pk True m(3) by (subst trim_lead.simps) (simp add: algebra_simps)
    have a: "m + 1 < sz \<longrightarrow> s ! nat (i + (m + 1)) \<noteq> CHR '' ''"
      using m(4) by (simp add: algebra_simps)
    have b: "utf8_chars (take (nat sz) (drop (nat i) s)) \<longrightarrow>
          utf8_chars (take (nat (sz - (m + 1))) (drop (nat (i + (m + 1))) s))"
      using m(5) unfolding fld utf8_chars_space by (simp add: algebra_simps)
    from m(1,2) r a b show ?thesis by (intro exI[of _ "m + 1"]) auto
  qed
qed

lemma trim_tail_returns:
  "0 \<le> i \<Longrightarrow> i + int k \<le> int (length s) \<Longrightarrow>
   f8 \<or> utf8_chars (take k (drop (nat i) s)) \<Longrightarrow>
   \<exists>a. trim_tail f8 (Ptr s) i (int k) a0 = Inr a \<and>
       (a = a0 \<or> (\<exists>j. a = Some j \<and> i < j \<and> j \<le> i + int k))"
proof (induction k arbitrary: i a0 rule: less_induct)
  case (less k)
  show ?case
  proof (cases k)
    case 0
    then show ?thesis by (subst trim_tail.simps) simp
  next
    case (Suc k')
    let ?c = "s ! nat i"
    from less.prems Suc have lt: "nat i < length s" and pk: "peek (Ptr s) i = Inr ?c"
      by (auto simp: peek_def)
    have d: "drop (nat i) s = ?c # drop (Suc (nat i)) s"
      using lt by (simp add: Cons_nth_drop_Suc)
    have fld: "take k (drop (nat i) s) = ?c # take k' (drop (Suc (nat i)) s)"
      by (simp add: d Suc)
    let ?sz = "if f8 then 1 else utf8charlen ?c"
    let ?m = "nat ?sz - 1"
    let ?rest = "take k' (drop (Suc (nat i)) s)"
    let ?a1 = "if ?c \<noteq> CHR '' '' then Some (i + ?sz) else a0"
    have szpos: "1 \<le> ?sz" using utf8charlen_pos by simp
    have fit: "?m \<le> k'" and wf: "f8 \<or> utf8_chars (drop ?m ?rest)"
      using less.prems(3) unfolding fld by (auto simp: utf8_chars.simps)
    have kk: "int k - ?sz = int (k' - ?m)" using szpos fit Suc by auto
    have dr: "drop ?m ?rest = take (k' - ?m) (drop (nat (i + ?sz)) s)"
    proof -
      have "nat (i + ?sz) = Suc (nat i) + ?m" using szpos less.prems(1) by auto
      then show ?thesis by (simp add: drop_take add.commute)
    qed
    have "\<exists>a. trim_tail f8 (Ptr s) (i + ?sz) (int (k' - ?m)) ?a1 = Inr a \<and>
       (a = ?a1 \<or> (\<exists>j. a = Some j \<and> i + ?sz < j \<and> j \<le> i + ?sz + int (k' - ?m)))"
    proof (rule less.IH)
      show "k' - ?m < k" using Suc by simp
      show "0 \<le> i + ?sz" using less.prems(1) szpos by linarith
      show "i + ?sz + int (k' - ?m) \<le> int (length s)"
        using less.prems(2) kk by linarith
      show "f8 \<or> utf8_chars (take (k' - ?m) (drop (nat (i + ?sz)) s))"
        using wf dr by simp
    qed
    then obtain a where a: "trim_tail f8 (Ptr s) (i + ?sz) (int k - ?sz) ?a1 = Inr a"
      and af: "a = ?a1 \<or> (\<exists>j. a = Some j \<and> i + ?sz < j \<and> j \<le> i + ?sz + (int k - ?sz))"
      by (auto simp only: kk)
    have run: "trim_tail f8 (Ptr s) i (int k) a0 = Inr a"
      using pk a Suc by (subst trim_tail.simps) simp
    have le: "i + ?sz \<le> i + int k" using kk by linarith
    have "a = a0 \<or> (\<exists>j. a = Some j \<and> i < j \<and> j \<le> i + int k)"
    proof (cases "a = ?a1")
      case True
      then show ?thesis using szpos le by (cases "?c \<noteq> CHR '' ''") auto
    next
      case False
      with af obtain j where "a = Some j" "i + ?sz < j" "j \<le> i + ?sz + (int k - ?sz)" by blast
      then show ?thesis using szpos by auto
    qed
    with run show ?thesis by blast
  qed
qed

lemma trim_tail_some:
  assumes "0 \<le> i" and "i + int k \<le> int (length s)" and "0 < k"
    and "f8 \<or> utf8_chars (take k (drop (nat i) s))" and "s ! nat i \<noteq> CHR '' ''"
  shows "\<exists>j. trim_tail f8 (Ptr s) i (int k) None = Inr (Some j) \<and> i < j \<and> j \<le> i + int k"
proof -
  from trim_tail_returns[OF assms(1,2,4), of None]
  obtain a where a: "trim_tail f8 (Ptr s) i (int k) None = Inr a"
    and af: "a = None \<or> (\<exists>j. a = Some j \<and> i < j \<and> j \<le> i + int k)" by blast
  have "a \<noteq> None"
  proof
    assume an: "a = None"
    let ?c = "s ! nat i"
    let ?sz = "if f8 then 1 else utf8charlen ?c"
    from assms have pk: "peek (Ptr s) i = Inr ?c" by (auto simp: peek_def)
    have st: "trim_tail f8 (Ptr s) (i + ?sz) (int k - ?sz) (Some (i + ?sz)) = Inr None"
      using a an pk assms(3,5) by (subst (asm) trim_tail.simps) simp
    have szpos: "1 \<le> ?sz" using utf8charlen_pos by simp
    show False
    proof (cases "int k - ?sz > 0")
      case False
      with st show False by (subst (asm) trim_tail.simps) simp
    next
      case True
      obtain k' where k': "k = Suc k'" using assms(3) by (cases k) auto
      have d: "drop (nat i) s = ?c # drop (Suc (nat i)) s"
        using assms by (simp add: Cons_nth_drop_Suc)
      have fld: "take k (drop (nat i) s) = ?c # take k' (drop (Suc (nat i)) s)"
        by (simp add: d k')
      let ?m = "nat ?sz - 1"
      let ?rest = "take k' (drop (Suc (nat i)) s)"
      have fit: "?m \<le> k'" and wf: "f8 \<or> utf8_chars (drop ?m ?rest)"
        using assms(4) unfolding fld by (auto simp: utf8_chars.simps)
      have kk: "int k - ?sz = int (k' - ?m)" using szpos fit k' by auto
      have dr: "drop ?m ?rest = take (k' - ?m) (drop (nat (i + ?sz)) s)"
      proof -
        have "nat (i + ?sz) = Suc (nat i) + ?m" using szpos assms(1) by auto
        then show ?thesis by (simp add: drop_take add.commute)
      qed
      have "\<exists>a. trim_tail f8 (Ptr s) (i + ?sz) (int (k' - ?m)) (Some (i + ?sz)) = Inr a \<and>
         (a = Some (i + ?sz) \<or> (\<exists>j. a = Some j \<and> i + ?sz < j \<and> j \<le> i + ?sz + int (k' - ?m)))"
      proof (rule trim_tail_returns)
        show "0 \<le> i + ?sz" using assms(1) szpos by linarith
        show "i + ?sz + int (k' - ?m) \<le> int (length s)" using assms(2) kk by linarith
        show "f8 \<or> utf8_chars (take (k' - ?m) (drop (nat (i + ?sz)) s))" using wf dr by simp
      qed
      with st show False by (auto simp only: kk)
    qed
  qed
  with a af show ?thesis by auto
qed

lemma trim_str_returns:
  assumes "0 \<le> sz" and "sz < int (length s)" and "f8 \<or> utf8_chars (take (nat sz) s)"
  shows "trim_str (Ptr s) sz f8 = Inr (NullP, 0) \<or>
         (\<exists>k n. trim_str (Ptr s) sz f8 = Inr (Ptr (drop k s), n) \<and> 0 < n \<and> int k + n \<le> sz)"
proof -
  from trim_lead_returns[of 0 sz s] assms
  obtain m where m: "0 \<le> m" "m \<le> sz" "trim_lead (Ptr s) 0 sz = Inr (m, sz - m)"
    "m < sz \<longrightarrow> s ! nat m \<noteq> CHR '' ''"
    "utf8_chars (take (nat sz) s) \<longrightarrow> utf8_chars (take (nat (sz - m)) (drop (nat m) s))"
    by auto
  show ?thesis
  proof (cases "m < sz")
    case False
    with m have "trim_str (Ptr s) sz f8 = Inr (NullP, 0)"
      by (simp add: trim_str_def)
    then show ?thesis by simp
  next
    case True
    have "\<exists>j. trim_tail f8 (Ptr s) m (int (nat (sz - m))) None = Inr (Some j) \<and>
              m < j \<and> j \<le> m + int (nat (sz - m))"
      by (rule trim_tail_some) (use m True assms in auto)
    then obtain j where j: "trim_tail f8 (Ptr s) m (sz - m) None = Inr (Some j)"
      "m < j" "j \<le> sz" using True by auto
    have pa: "ptr_add (Ptr s) m = Inr (Ptr (drop (nat m) s))"
      using m assms by (simp add: ptr_add_def)
    have "trim_str (Ptr s) sz f8 = Inr (Ptr (drop (nat m) s), j - m)"
      using m(3) True j(1) pa by (simp add: trim_str_def)
    moreover have "0 < j - m" "int (nat m) + (j - m) \<le> sz" using j m by auto
    ultimately show ?thesis by blast
  qed
qed


lemma csv_scan_total:
  "0 \<le> i \<Longrightarrow> i + slen' \<le> int (length s) \<Longrightarrow> \<exists>b. csv_scan f8 (Ptr s) i slen' = Inr b"
proof (induction f8 "Ptr s" i slen' rule: csv_scan.induct)
  case (1 f8 i slen')
  show ?case
  proof (cases "slen' > 0")
    case False
    then show ?thesis by (subst csv_scan.simps) auto
  next
    case True
    then have pk: "peek (Ptr s) i = Inr (s ! nat i)"
      using "1.prems" by (auto simp: peek_def)
    let ?c = "s ! nat i"
    let ?sz = "if f8 then 1 else utf8charlen ?c"
    have szpos: "0 < ?sz" by (simp add: utf8charlen_gt0)
    show ?thesis
    proof (cases "?c = DQUOTE \<or> ?c = CHR '','' \<or> ?c = TAB \<or> ?c = CR \<or> ?c = LF")
      case sp: True
      then show ?thesis using True pk by (subst csv_scan.simps) auto
    next
      case sp: False
      have "\<exists>b. csv_scan f8 (Ptr s) (i + ?sz) (slen' - ?sz) = Inr b"
      proof (cases "?sz \<le> slen'")
        case le: True
        show ?thesis
          by (rule "1.hyps"[OF True pk sp]) (use "1.prems" szpos in auto)
      next
        case gt: False
        then show ?thesis by (subst csv_scan.simps) auto
      qed
      then show ?thesis using True pk sp by (subst csv_scan.simps) auto
    qed
  qed
qed

lemma length_doubled_ge: "length xs \<le> length (doubled q xs)"
  by (simp add: length_doubled)

text \<open>A value that a quoting routine returned can be written: the bytes it reports are
  there.\<close>

lemma quote_wrap_returns:
  assumes "0 \<le> n" and "n \<le> int (length s)" and "f8 \<or> bytewise_allocator smalloc2"
  shows "\<exists>buf bytes. quote_wrap smalloc2 q f8 (Ptr s) n = Inr (Fresh buf, n + 2) \<and>
           read_bytes (Ptr buf) (n + 2) = Inr bytes"
proof -
  from quote_wrap_text[OF assms, of q] obtain rest where
    w: "quote_wrap smalloc2 q f8 (Ptr s) n =
          Inr (Fresh (wrapped q (take (nat n) s) @ [NUL] @ rest), n + 2)" by blast
  have "n + 2 \<le> int (length (wrapped q (take (nat n) s) @ [NUL] @ rest))"
    using assms(1,2) by (simp add: length_wrapped)
  then have "\<exists>bytes. read_bytes (Ptr (wrapped q (take (nat n) s) @ [NUL] @ rest)) (n + 2) = Inr bytes"
    using assms(1) by (simp add: read_bytes_def)
  with w show ?thesis by blast
qed

lemma csv_format_returns:
  assumes "0 < n" and "n \<le> int (length s)" and "f8 \<or> bytewise_allocator smalloc2"
  shows "\<exists>q m. csv_format smalloc2 (Ptr s) n f8 e = Inr (q, m) \<and>
           (resolve (Ptr s) q = NullP \<and> m = 0 \<or>
            (\<exists>bytes. read_bytes (resolve (Ptr s) q) m = Inr bytes))"
proof -
  have gl: "\<not> f8 \<and> n = 3 \<Longrightarrow> strncmp_eq (Ptr s) 0 null_glyph = Inr (take 3 s = null_glyph)"
    using glyph_test_field[of s] assms(2) by auto
  show ?thesis
  proof (cases "\<not> f8 \<and> n = 3 \<and> take 3 s = null_glyph")
    case True
    with gl have "csv_format smalloc2 (Ptr s) n f8 e = Inr (RNull, 0)"
      by (simp add: csv_format_def)
    then show ?thesis by (simp add: resolve_def)
  next
    case False
    then have g: "(if \<not> f8 \<and> n = 3 then strncmp_eq (Ptr s) 0 null_glyph else Inr False) = Inr False"
      using gl by auto
    from csv_scan_total[of 0 n s f8] assms obtain b where b: "csv_scan f8 (Ptr s) 0 n = Inr b"
      by auto
    show ?thesis
    proof (cases b)
      case bF: False
      have "csv_format smalloc2 (Ptr s) n f8 e = Inr (Same, n)"
        using g b bF assms(1) by (simp add: csv_format_def)
      moreover have "\<exists>bytes. read_bytes (resolve (Ptr s) Same) n = Inr bytes"
        using assms(1,2) by (simp add: read_bytes_def resolve_def)
      ultimately show ?thesis by blast
    next
      case bT: True
      from quote_wrap_returns[OF _ assms(2,3), of DQUOTE] assms(1)
      obtain buf bytes where w: "quote_wrap smalloc2 DQUOTE f8 (Ptr s) n = Inr (Fresh buf, n + 2)"
        "read_bytes (Ptr buf) (n + 2) = Inr bytes" by auto
      have "csv_format smalloc2 (Ptr s) n f8 e = Inr (Fresh buf, n + 2)"
        using g b bT assms(1) w(1) by (simp add: csv_format_def)
      moreover have "read_bytes (resolve (Ptr s) (Fresh buf)) (n + 2) = Inr bytes"
        using w(2) by (simp add: resolve_def)
      ultimately show ?thesis by blast
    qed
  qed
qed

lemma literal_scan_total:
  "0 \<le> i \<Longrightarrow> 0 \<le> slen' \<Longrightarrow> i + slen' < int (length s) \<Longrightarrow>
   \<exists>b. literal_scan f8 (Ptr s) i slen' has_dot = Inr b"
proof (induction f8 "Ptr s" i slen' has_dot rule: literal_scan.induct)
  case (1 f8 i slen' has_dot)
  let ?c = "s ! nat i"
  from "1.prems" have pk: "peek (Ptr s) i = Inr ?c" by (auto simp: peek_def)
  show ?case
  proof (cases "?c \<noteq> NUL \<and> slen' > 0")
    case False
    with pk show ?thesis by (subst literal_scan.simps) auto
  next
    case True
    show ?thesis
    proof (cases "?c = CHR ''.''")
      case dot: True
      then have st: "(if f8 then 1 else utf8charlen ?c) = 1" by (intro literal_step) simp
      show ?thesis
      proof (cases has_dot)
        case hd: True
        with pk True dot show ?thesis by (subst literal_scan.simps) auto
      next
        case hd: False
        have "\<exists>b. literal_scan f8 (Ptr s) (i + (if f8 then 1 else utf8charlen ?c))
                   (slen' - (if f8 then 1 else utf8charlen ?c)) True = Inr b"
          by (rule "1.hyps"(1)[OF pk True dot hd]) (use "1.prems" True st in auto)
        then show ?thesis using pk True dot hd by (subst literal_scan.simps) auto
      qed
    next
      case dot: False
      show ?thesis
      proof (cases "CHR ''0'' \<le> ?c \<and> ?c \<le> CHR ''9''")
        case dg: False
        with pk True dot show ?thesis by (subst literal_scan.simps) auto
      next
        case dg: True
        then have st: "(if f8 then 1 else utf8charlen ?c) = 1"
          by (intro literal_step) (simp add: is_digit_def)
        have "\<exists>b. literal_scan f8 (Ptr s) (i + (if f8 then 1 else utf8charlen ?c))
                   (slen' - (if f8 then 1 else utf8charlen ?c)) has_dot = Inr b"
          by (rule "1.hyps"(2)[OF pk True dot]) (use "1.prems" True st dg in auto)
        then show ?thesis using pk True dot dg by (subst literal_scan.simps) auto
      qed
    qed
  qed
qed

lemma quote_sql_literal_returns:
  assumes "0 < n" and "n < int (length s)" and "f8 \<or> bytewise_allocator smalloc2"
  shows "\<exists>q m bytes. quote_sql_literal smalloc2 (Ptr s) n f8 e = Inr (q, m) \<and>
           read_bytes (resolve (Ptr s) q) m = Inr bytes"
proof -
  have same: "\<exists>bytes. read_bytes (resolve (Ptr s) Same) n = Inr bytes"
    using assms(1,2) by (simp add: read_bytes_def resolve_def)
  have fresh: "\<exists>bytes. read_bytes (resolve (Ptr s) (Fresh (sstrdup ''NULL''))) 4 = Inr bytes"
    by (simp add: read_bytes_def resolve_def sstrdup_def)
  have nw: "n = 4 \<Longrightarrow> is_null_word (Ptr s) = Inr (take 4 s = ''NULL'' \<or> take 4 s = ''null'')"
    using is_null_word_field[of s] assms(2) by auto
  have gl: "\<not> f8 \<and> n = 3 \<Longrightarrow> strncmp_eq (Ptr s) 0 null_glyph = Inr (take 3 s = null_glyph)"
    using glyph_test_field[of s] assms(2) by auto
  from literal_scan_total[of 0 n s f8 False] assms
  obtain b where b: "literal_scan f8 (Ptr s) 0 n False = Inr b" by auto
  from quote_wrap_returns[OF _ _ assms(3), of n s SQUOTE] assms(1,2)
  obtain buf bytes where w: "quote_wrap smalloc2 SQUOTE f8 (Ptr s) n = Inr (Fresh buf, n + 2)"
    "read_bytes (Ptr buf) (n + 2) = Inr bytes" by auto
  have wr: "read_bytes (resolve (Ptr s) (Fresh buf)) (n + 2) = Inr bytes"
    using w(2) by (simp add: resolve_def)
  show ?thesis
  proof (cases "n = 4 \<and> (take 4 s = ''NULL'' \<or> take 4 s = ''null'')")
    case True
    with nw assms(1) have "quote_sql_literal smalloc2 (Ptr s) n f8 e = Inr (Same, n)"
      by (simp add: quote_sql_literal_def)
    with same show ?thesis by blast
  next
    case nwF: False
    then have g1: "(if n = 4 then is_null_word (Ptr s) else Inr False) = Inr False"
      using nw by auto
    show ?thesis
    proof (cases "\<not> f8 \<and> n = 3 \<and> take 3 s = null_glyph")
      case True
      with gl g1 assms(1) have "quote_sql_literal smalloc2 (Ptr s) n f8 e =
          Inr (Fresh (sstrdup ''NULL''), 4)"
        by (simp add: quote_sql_literal_def)
      with fresh show ?thesis by blast
    next
      case False
      then have g2: "(if \<not> f8 \<and> n = 3 then strncmp_eq (Ptr s) 0 null_glyph else Inr False) = Inr False"
        using gl by auto
      show ?thesis
      proof (cases b)
        case bF: False
        have "quote_sql_literal smalloc2 (Ptr s) n f8 e = Inr (Same, n)"
          using g1 g2 b bF assms(1) by (simp add: quote_sql_literal_def)
        with same show ?thesis by blast
      next
        case bT: True
        have "quote_sql_literal smalloc2 (Ptr s) n f8 e = Inr (Fresh buf, n + 2)"
          using g1 g2 b bT assms(1) w(1) by (simp add: quote_sql_literal_def)
        with wr show ?thesis by blast
      qed
    qed
  qed
qed

lemma ident_scan_within:
  "0 \<le> i \<Longrightarrow> 0 \<le> slen' \<Longrightarrow> i + slen' < int (length s) \<Longrightarrow>
   \<exists>b. ident_scan f8 (Ptr s) i slen' = Inr b"
proof (induction f8 "Ptr s" i slen' rule: ident_scan.induct)
  case (1 f8 i slen')
  let ?c = "s ! nat i"
  from "1.prems" have pk: "peek (Ptr s) i = Inr ?c" by (auto simp: peek_def)
  show ?case
  proof (cases "?c \<noteq> NUL \<and> slen' > 0")
    case False
    with pk show ?thesis by (subst ident_scan.simps) auto
  next
    case True
    show ?thesis
    proof (cases "(CHR ''a'' \<le> ?c \<and> ?c \<le> CHR ''z'') \<or> (CHR ''0'' \<le> ?c \<and> ?c \<le> CHR ''9'') \<or>
                    ?c = CHR ''_''")
      case idF: False
      with pk True show ?thesis by (subst ident_scan.simps) auto
    next
      case idT: True
      then have st: "(if f8 then 1 else utf8charlen ?c) = 1"
        using ident_char_ascii[of ?c] by simp
      have "\<exists>b. ident_scan f8 (Ptr s) (i + 1) (slen' - 1) = Inr b"
        using "1.hyps"[OF pk True] idT st "1.prems" True by auto
      then show ?thesis
        using pk True idT st by (subst ident_scan.simps) auto
    qed
  qed
qed

lemma quote_sql_identifier_returns:
  assumes "0 < n" and "n < int (length s)" and "f8 \<or> bytewise_allocator smalloc2"
  shows "\<exists>q m. quote_sql_identifier smalloc2 (Ptr s) n f8 = Inr (q, m) \<and> q \<noteq> RNull \<and>
           (q = Same \<longrightarrow> m = n)"
proof -
  from assms have pk: "peek (Ptr s) 0 = Inr (s ! 0)" by (auto simp: peek_def)
  from ident_scan_within[of 0 n s f8] assms
  obtain b where sc: "ident_scan f8 (Ptr s) 0 n = Inr b" by auto
  from quote_wrap_returns[OF _ _ assms(3), of n s DQUOTE] assms(1,2)
  obtain buf where w: "quote_wrap smalloc2 DQUOTE f8 (Ptr s) n = Inr (Fresh buf, n + 2)" by auto
  show ?thesis
    unfolding quote_sql_identifier_def using pk sc w by (auto split: sum.splits)
qed




lemma process_item_terminator_commented:
  assumes "format es = CLIPBOARD_FORMAT_INSERT_WITH_COMMENTS"
  shows "process_item h es errno0 (CHR ''N'') field sz xpos False =
           (case aget (colnames es) (colno es - 1) of
              Inl e \<Rightarrow> Inl e
            | Inr nm \<Rightarrow>
                (case c_str nm of
                   Inl e \<Rightarrow> Inl e
                 | Inr name \<Rightarrow>
                     (case out h (es, 0)
                             ('');'' @ [TAB, TAB] @ '' -- '' @ printf_d (colno es) @ ''. '' @
                              name @ [LF]) of
                        (es', errno') \<Rightarrow> Inr (errno' = 0, es', errno'))))"
  using assms
  by (simp add: process_item_def process_item_insert_def INSERT_FORMAT_TYPE_def
           split: sum.splits prod.splits)

lemma terminator_needs_names:
  assumes "format es = CLIPBOARD_FORMAT_INSERT_WITH_COMMENTS"
    and "process_item h es errno0 (CHR ''N'') field sz xpos False = Inr r"
  shows "colnames es \<noteq> None \<and> 1 \<le> colno es \<and> colno es \<le> int (length (the (colnames es)))"
  using assms(2) unfolding process_item_terminator_commented[OF assms(1)]
  by (auto simp: aget_def split: sum.splits option.splits if_splits)

lemma terminator_faults:
  assumes "format es = CLIPBOARD_FORMAT_INSERT_WITH_COMMENTS"
    and "colnames es = None \<or> colno es \<le> 0"
  shows "\<exists>f. process_item h es errno0 (CHR ''N'') field sz xpos False = Inl f"
  using assms(2) unfolding process_item_terminator_commented[OF assms(1)]
  by (auto simp: aget_def split: sum.splits option.splits if_splits)

lemma process_item_other_insert:
  assumes "INSERT_FORMAT_TYPE (format es)" and "c \<noteq> CHR ''d''" and "c \<noteq> CHR ''N''"
  shows "process_item h es errno0 c field sz xpos is_colname = Inr (True, es, 0)"
  using assms by (simp add: process_item_def process_item_insert_def)

lemma flush_field_skips:
  assumes "\<And>x. outside_range es x"
  shows "\<exists>e. flush_field h row is_colname field field_size field_xpos es errno0 = Inr (True, es, e)"
  using assms by (cases field) (auto simp: flush_field_def process_item_skips)

lemma row_loop_all_skipped:
  "row_loop h f8 row headline ic i j xp field fs fx es e0 =
     Inr (isok, field', fs', fx', es', e') \<Longrightarrow>
   \<not> ic \<Longrightarrow> format es = CLIPBOARD_FORMAT_INSERT_WITH_COMMENTS \<Longrightarrow> colno es = 0 \<Longrightarrow>
   (\<forall>x. outside_range es x) \<Longrightarrow> isok \<and> es' = es"
proof (induction h f8 row headline ic i j xp field fs fx es e0 rule: row_loop.induct)
  case (1 h f8 row headline ic i j xp field fs fx es e0)
  note IH = "1.IH" and run = "1.prems"(1) and nic = "1.prems"(2) and fmt = "1.prems"(3)
    and c0 = "1.prems"(4) and skip = "1.prems"(5)
  have ins: "INSERT_FORMAT_TYPE (format es)" using fmt by (simp add: INSERT_FORMAT_TYPE_def)
  show ?case
  proof (cases "next_char h f8 row headline i j xp")
    case (Inl e)
    with run show ?thesis by (subst (asm) row_loop.simps) simp
  next
    case (Inr nc)
    show ?thesis
    proof (cases nc)
      case None
      with run Inr show ?thesis by (subst (asm) row_loop.simps) simp
    next
      case (Some tup)
      obtain c sz w i' j' xp' where tup: "tup = (c, sz, w, i', j', xp')"
        by (cases tup) auto
      show ?thesis
      proof (cases "c = CHR ''d''")
        case True
        from run Inr Some tup True
        have rec: "row_loop h f8 row headline ic i' j' xp'
              (if field = None then Some i else field) (fs + sz) xp es e0 =
              Inr (isok, field', fs', fx', es', e')"
          by (subst (asm) row_loop.simps) simp
        show ?thesis
          using IH(1) Inr Some tup True rec nic fmt c0 skip by fastforce
      next
        case False
        from flush_field_skips[of es h row ic field fs fx e0] skip
        obtain e1 where fl: "flush_field h row ic field fs fx es e0 = Inr (True, es, e1)"
          by auto
        show ?thesis
        proof (cases "c = CHR ''N''")
          case nT: True
          from terminator_faults[OF fmt, of h e1 "at_offset row i" sz xp] c0
          obtain f where "process_item h es e1 (CHR ''N'') (at_offset row i) sz xp False = Inl f"
            by auto
          with run Inr Some tup False fl nT nic show ?thesis
            by (subst (asm) row_loop.simps) simp
        next
          case nF: False
          have pi: "process_item h es e1 c (at_offset row i) sz xp ic = Inr (True, es, 0)"
            using process_item_other_insert[OF ins False nF] .
          from run Inr Some tup False fl pi
          have rec: "row_loop h f8 row headline ic i' j' xp' None 0 (- 1) es 0 =
              Inr (isok, field', fs', fx', es', e')"
            by (subst (asm) row_loop.simps) simp
          show ?thesis
            using IH(2) Inr Some tup False fl pi rec nic fmt c0 skip by fastforce
        qed
      qed
    qed
  qed
qed

text \<open>Claim C10. In the commented SQL INSERT format, \<^verbatim>\<open>process_item\<close> on a terminator
  token (\<^verbatim>\<open>'N'\<close>) of a row that is not a header row reads \<^verbatim>\<open>colnames[colno - 1]\<close>. The
  call returns only if the array of column names is not null and \<^verbatim>\<open>colno\<close> is at least 1;
  with a null array or with \<^verbatim>\<open>colno = 0\<close> the read is a fault. Such a state is reached:
  \<^verbatim>\<open>export_data\<close> starts every row with \<^verbatim>\<open>colno = 0\<close> (line 878), and on a row all of whose
  data tokens are skipped by the column range (as they are when no position lies
  strictly between \<^verbatim>\<open>xmin\<close> and \<^verbatim>\<open>xmax\<close>) the terminator is processed with \<^verbatim>\<open>colno\<close> still
  0; and in an export without header row the array is still null, as in the runs that
  follow the theorem.\<close>

theorem commented_terminator_precondition:
  assumes "format es = CLIPBOARD_FORMAT_INSERT_WITH_COMMENTS"
  shows "(\<forall>r. process_item h es errno0 (CHR ''N'') field sz xpos False = Inr r \<longrightarrow>
              colnames es \<noteq> None \<and> 1 \<le> colno es) \<and>
         (colnames es = None \<or> colno es \<le> 0 \<longrightarrow>
            (\<exists>f. process_item h es errno0 (CHR ''N'') field sz xpos False = Inl f)) \<and>
         (xmin es \<noteq> - 1 \<and> xmax es \<le> xmin es + 1 \<longrightarrow>
            (\<exists>f. export_row h opts desc False row es errno0 = Inl f))"
proof -
  have A: "\<forall>r. process_item h es errno0 (CHR ''N'') field sz xpos False = Inr r \<longrightarrow>
              colnames es \<noteq> None \<and> 1 \<le> colno es"
    using terminator_needs_names[OF assms] by blast
  have B: "colnames es = None \<or> colno es \<le> 0 \<longrightarrow>
            (\<exists>f. process_item h es errno0 (CHR ''N'') field sz xpos False = Inl f)"
    using terminator_faults[OF assms] by blast
  have C: "\<exists>f. export_row h opts desc False row es errno0 = Inl f"
    if rng: "xmin es \<noteq> - 1 \<and> xmax es \<le> xmin es + 1"
  proof -
    define es0 where "es0 = es\<lparr>colno := 0\<rparr>"
    have fmt0: "format es0 = CLIPBOARD_FORMAT_INSERT_WITH_COMMENTS" and c0: "colno es0 = 0"
      using assms by (simp_all add: es0_def)
    have skip: "\<And>x. outside_range es0 x"
      using rng by (auto simp: outside_range_def es0_def)
    show ?thesis
    proof (cases "row_loop h (opts_force8bit opts) row (headline_transl desc) False 0 0 0
                    None 0 (- 1) es0 errno0")
      case (Inl f)
      then show ?thesis by (simp add: export_row_def es0_def)
    next
      case (Inr res)
      obtain isok fld fs fx es1 e1 where res: "res = (isok, fld, fs, fx, es1, e1)"
        by (cases res) auto
      from row_loop_all_skipped[OF Inr[unfolded res] _ fmt0 c0] skip
      have ok: "isok" and es1: "es1 = es0" by auto
      from flush_field_skips[of es0 h row False fld fs fx e1] skip
      obtain e2 where fl: "flush_field h row False fld fs fx es0 e1 = Inr (True, es0, e2)"
        by auto
      from terminator_faults[OF fmt0, of h e2 NullP 0 "- 1"] c0
      obtain f where "process_item h es0 e2 (CHR ''N'') NullP 0 (- 1) False = Inl f"
        by auto
      with Inr res ok es1 fl show ?thesis
        by (simp add: export_row_def es0_def[symmetric])
    qed
  qed
  from A B C show ?thesis by blast
qed

theorem commented_terminator_precondition_witness:
  "format commented_state = CLIPBOARD_FORMAT_INSERT_WITH_COMMENTS \<and>
   colnames commented_state = None \<and> colno commented_state = 0 \<and>
   process_item plain_helpers commented_state 0 (CHR ''N'') NullP 0 (- 1) False = Inl NullDeref \<and>
   process_item plain_helpers
     (commented_state\<lparr>colnames := Some [Ptr (''a'' @ [NUL]), Ptr (''b'' @ [NUL])]\<rparr>)
     0 (CHR ''N'') NullP 0 (- 1) False = Inl OutOfBounds \<and>
   process_item plain_helpers
     (commented_state\<lparr>colnames := Some [Ptr (''a'' @ [NUL]), Ptr (''b'' @ [NUL])], colno := 2\<rparr>)
     0 (CHR ''N'') NullP 0 (- 1) False =
     Inr (True,
          commented_state\<lparr>colnames := Some [Ptr (''a'' @ [NUL]), Ptr (''b'' @ [NUL])], colno := 2,
                            fp := '');'' @ [TAB, TAB] @ '' -- 2. b'' @ [LF]\<rparr>,
          0) \<and>
   xmin commented_state \<noteq> - 1 \<and> xmax commented_state \<le> xmin commented_state + 1 \<and>
   export_row plain_helpers demo_opts demo_desc False (Ptr ('' 1 | 2 '' @ [NUL]))
     commented_state 0 = Inl NullDeref \<and>
   export_data plain_helpers no_search bare_lines 0 demo_opts no_selection bare_desc 0 0 [] 0 0
     (Ptr (''orders'' @ [NUL])) cmd_CopyAllLines CLIPBOARD_FORMAT_INSERT_WITH_COMMENTS =
     Inl NullDeref"
proof -
  have runs: "process_item plain_helpers commented_state 0 (CHR ''N'') NullP 0 (- 1) False = Inl NullDeref"
    "process_item plain_helpers
       (commented_state\<lparr>colnames := Some [Ptr (''a'' @ [NUL]), Ptr (''b'' @ [NUL])]\<rparr>)
       0 (CHR ''N'') NullP 0 (- 1) False = Inl OutOfBounds"
    "process_item plain_helpers
       (commented_state\<lparr>colnames := Some [Ptr (''a'' @ [NUL]), Ptr (''b'' @ [NUL])], colno := 2\<rparr>)
       0 (CHR ''N'') NullP 0 (- 1) False =
       Inr (True,
            commented_state\<lparr>colnames := Some [Ptr (''a'' @ [NUL]), Ptr (''b'' @ [NUL])], colno := 2,
                              fp := '');'' @ [TAB, TAB] @ '' -- 2. b'' @ [LF]\<rparr>,
            0)"
    "export_row plain_helpers demo_opts demo_desc False (Ptr ('' 1 | 2 '' @ [NUL]))
       commented_state 0 = Inl NullDeref"
    "export_data plain_helpers no_search bare_lines 0 demo_opts no_selection bare_desc 0 0 [] 0 0
       (Ptr (''orders'' @ [NUL])) cmd_CopyAllLines CLIPBOARD_FORMAT_INSERT_WITH_COMMENTS =
       Inl NullDeref"
    by code_simp+
  from commented_terminator_precondition[of commented_state plain_helpers 0 NullP 0 "- 1"
         demo_opts demo_desc "Ptr ('' 1 | 2 '' @ [NUL])"] runs
  show ?thesis by (simp add: commented_state_def)
qed

section \<open>Properties of export_data\<close>

lemma length_takeWhile_lt: "x \<in> set xs \<Longrightarrow> \<not> P x \<Longrightarrow> length (takeWhile P xs) < length xs"
  by (induction xs) auto

lemma ident_scan_total:
  "0 \<le> i \<Longrightarrow> nat i \<le> length (takeWhile (\<lambda>c. c \<noteq> NUL) s) \<Longrightarrow> NUL \<in> set s \<Longrightarrow>
   \<exists>b. ident_scan f8 (Ptr s) i slen' = Inr b"
proof (induction f8 "Ptr s" i slen' rule: ident_scan.induct)
  case (1 f8 i slen')
  let ?tn = "takeWhile (\<lambda>c. c \<noteq> NUL) s"
  have lt: "length ?tn < length s"
    using "1.prems"(3) by (rule length_takeWhile_lt) simp
  have endnul: "s ! length ?tn = NUL"
    using nth_length_takeWhile[OF lt] by simp
  from "1.prems" lt have inb: "nat i < length s" by simp
  then have pk: "peek (Ptr s) i = Inr (s ! nat i)"
    using "1.prems"(1) by (simp add: peek_def)
  let ?c = "s ! nat i"
  show ?case
  proof (cases "?c \<noteq> NUL \<and> slen' > 0")
    case False
    with pk show ?thesis by (subst ident_scan.simps) auto
  next
    case True
    show ?thesis
    proof (cases "(CHR ''a'' \<le> ?c \<and> ?c \<le> CHR ''z'') \<or> (CHR ''0'' \<le> ?c \<and> ?c \<le> CHR ''9'') \<or>
                    ?c = CHR ''_''")
      case idF: False
      with pk True show ?thesis by (subst ident_scan.simps) auto
    next
      case idT: True
      then have st: "(if f8 then 1 else utf8charlen ?c) = 1"
        using ident_char_ascii[of ?c] by simp
      from True endnul have "nat i \<noteq> length ?tn" by auto
      with "1.prems"(2) have nxt: "nat (i + 1) \<le> length ?tn"
        using "1.prems"(1) by simp
      have "\<exists>b. ident_scan f8 (Ptr s) (i + 1) (slen' - 1) = Inr b"
        using "1.hyps"[OF pk True] idT st nxt "1.prems"(1,3) by auto
      then show ?thesis
        using pk True idT st by (subst ident_scan.simps) auto
    qed
  qed
qed

lemma quote_sql_identifier_total:
  assumes "NUL \<in> set s" and "n = int (length (takeWhile (\<lambda>c. c \<noteq> NUL) s))"
    and "f8 \<or> bytewise_allocator smalloc2"
  shows "\<exists>r. quote_sql_identifier smalloc2 (Ptr s) n f8 = Inr r"
proof -
  have le: "n \<le> int (length s)" using assms(2) by (simp add: length_takeWhile_le)
  from assms(1) have ne: "s \<noteq> []" by auto
  then have pk: "peek (Ptr s) 0 = Inr (s ! 0)" by (simp add: peek_def)
  obtain b where sc: "ident_scan f8 (Ptr s) 0 n = Inr b"
    using ident_scan_total[of 0 s f8 n] assms(1) by auto
  obtain rest where w: "quote_wrap smalloc2 DQUOTE f8 (Ptr s) n =
      Inr (Fresh (DQUOTE # doubled DQUOTE (take (nat n) s) @ [DQUOTE, NUL] @ rest), n + 2)"
    using quote_wrap_bytewise[of n s f8 smalloc2 DQUOTE] le assms(2,3)
    by (auto simp: bytewise_allocator_def)
  show ?thesis
    unfolding quote_sql_identifier_def using pk sc w by (auto split: sum.splits)
qed

lemma quote_table_name_total:
  assumes "is_c_string table_name0"
    and "opts_force8bit opts \<or> bytewise_allocator (h_smalloc2 h)"
  shows "\<exists>p. quote_table_name h opts table_name0 = Inr p"
proof -
  from assms(1) obtain s where s: "table_name0 = Ptr s" "NUL \<in> set s"
    by (auto simp: is_c_string_def split: cptr.splits)
  from quote_sql_identifier_total[OF s(2) refl assms(2)]
  obtain r where "quote_sql_identifier (h_smalloc2 h) (Ptr s)
      (int (length (takeWhile (\<lambda>c. c \<noteq> NUL) s))) (opts_force8bit opts) = Inr r" by blast
  then show ?thesis
    using s by (cases r) (simp add: quote_table_name_def c_str_def)
qed

lemma export_setup_negative:
  assumes "cmd = cmd_CopyTopLines \<or> cmd = cmd_CopyBottomLines"
    and "rows < 0 \<or> percent < 0"
  shows "export_setup h opts scrdesc desc cursor_row cursor_column fp0 rows percent
           table_name0 cmd format0 =
         (case (if INSERT_FORMAT_TYPE format0 then quote_table_name h opts table_name0
                else Inr NullP) of
            Inl e \<Rightarrow> Inl e
          | Inr tname \<Rightarrow> Inr None)"
proof -
  have lf: "local_format cmd format0 = format0"
    using assms(1) by (auto simp: local_format_def)
  show ?thesis
    unfolding export_setup_def lf using assms
    by (auto simp: range_column_def range_top_bottom_def split: sum.splits)
qed

text \<open>Claim C5. For every call of \<^verbatim>\<open>export_data\<close> with the command \<^verbatim>\<open>cmd_CopyTopLines\<close> or
  \<^verbatim>\<open>cmd_CopyBottomLines\<close> and a negative \<^verbatim>\<open>rows\<close> or a negative \<^verbatim>\<open>percent\<close>, the call
  returns false and the output stream is the one it was given: nothing was written.
  First, no such call returns anything else. Second, the call does return: at once in
  the formats that are not SQL INSERT formats, and in those after the table name has been
  quoted, for which the table name is taken to be a C string and the quoting to proceed
  byte by byte (force-8-bit mode, or an allocator whose new buffers hold one-byte
  characters).\<close>

theorem export_data_negative_arguments:
  assumes "cmd = cmd_CopyTopLines \<or> cmd = cmd_CopyBottomLines"
    and "rows < 0 \<or> percent < 0"
  shows "(\<forall>r. export_data h set_line_info lns errno0 opts scrdesc desc cursor_row cursor_column
                fp0 rows percent table_name0 cmd format0 = Inr r \<longrightarrow>
              r = (False, fp0, errno0)) \<and>
         ((INSERT_FORMAT_TYPE format0 \<longrightarrow>
             is_c_string table_name0 \<and>
             (opts_force8bit opts \<or> bytewise_allocator (h_smalloc2 h))) \<longrightarrow>
          export_data h set_line_info lns errno0 opts scrdesc desc cursor_row cursor_column
            fp0 rows percent table_name0 cmd format0 = Inr (False, fp0, errno0))"
proof -
  note st = export_setup_negative[OF assms, of h opts scrdesc desc cursor_row cursor_column
              fp0 table_name0 format0]
  have A: "\<forall>r. export_data h set_line_info lns errno0 opts scrdesc desc cursor_row cursor_column
                fp0 rows percent table_name0 cmd format0 = Inr r \<longrightarrow>
              r = (False, fp0, errno0)"
    unfolding export_data_def st by (auto split: sum.splits if_splits)
  have B: "export_data h set_line_info lns errno0 opts scrdesc desc cursor_row cursor_column
            fp0 rows percent table_name0 cmd format0 = Inr (False, fp0, errno0)"
    if wf: "INSERT_FORMAT_TYPE format0 \<longrightarrow>
             is_c_string table_name0 \<and>
             (opts_force8bit opts \<or> bytewise_allocator (h_smalloc2 h))"
  proof (cases "INSERT_FORMAT_TYPE format0")
    case True
    with wf quote_table_name_total[of table_name0 opts h]
    obtain p where "quote_table_name h opts table_name0 = Inr p" by auto
    with True show ?thesis unfolding export_data_def st by simp
  next
    case False
    then show ?thesis unfolding export_data_def st by simp
  qed
  from A B show ?thesis by blast
qed

theorem export_data_negative_arguments_witness:
  "export_data plain_helpers no_search demo_lines 0 demo_opts no_selection demo_desc 0 0
     [] (- 1) 0 (Ptr (''orders'' @ [NUL])) cmd_CopyTopLines CLIPBOARD_FORMAT_INSERT =
   Inr (False, [], 0) \<and>
   export_data plain_helpers no_search demo_lines 0 demo_opts no_selection demo_desc 0 0
     [] 0 (- 5) NullP cmd_CopyBottomLines CLIPBOARD_FORMAT_CSV = Inr (False, [], 0)"
proof -
  have h1: "INSERT_FORMAT_TYPE CLIPBOARD_FORMAT_INSERT \<longrightarrow>
           is_c_string (Ptr (''orders'' @ [NUL])) \<and>
           (opts_force8bit demo_opts \<or> bytewise_allocator (h_smalloc2 plain_helpers))"
    by (simp add: is_c_string_def demo_opts_def)
  have h2: "INSERT_FORMAT_TYPE CLIPBOARD_FORMAT_CSV \<longrightarrow>
           is_c_string NullP \<and>
           (opts_force8bit demo_opts \<or> bytewise_allocator (h_smalloc2 plain_helpers))"
    by (simp add: INSERT_FORMAT_TYPE_def)
  have a: "export_data plain_helpers no_search demo_lines 0 demo_opts no_selection demo_desc 0 0
     [] (- 1) 0 (Ptr (''orders'' @ [NUL])) cmd_CopyTopLines CLIPBOARD_FORMAT_INSERT =
   Inr (False, [], 0)"
    using export_data_negative_arguments[of cmd_CopyTopLines "- 1" 0 plain_helpers no_search
            demo_lines 0 demo_opts no_selection demo_desc 0 0 "[]" "Ptr (''orders'' @ [NUL])"
            CLIPBOARD_FORMAT_INSERT] h1
    by simp
  have b: "export_data plain_helpers no_search demo_lines 0 demo_opts no_selection demo_desc 0 0
     [] 0 (- 5) NullP cmd_CopyBottomLines CLIPBOARD_FORMAT_CSV = Inr (False, [], 0)"
    using export_data_negative_arguments[of cmd_CopyBottomLines 0 "- 5" plain_helpers no_search
            demo_lines 0 demo_opts no_selection demo_desc 0 0 "[]" NullP
            CLIPBOARD_FORMAT_CSV] h2
    by simp
  from a b show ?thesis by simp
qed

lemma filter_upto_le: "filter (\<lambda>n. a \<le> n \<and> n \<le> m) [a..b] = [a..min b m]"
proof (induction a b rule: upto.induct)
  case (1 i j)
  show ?case
  proof (cases "i \<le> j")
    case False
    then show ?thesis by (simp add: upto.simps)
  next
    case True
    have rest: "filter (\<lambda>n. i + 1 \<le> n \<and> n \<le> m) [i + 1..j] = [i + 1..min j m]"
      using "1.IH"[OF True] .
    have eq: "filter (\<lambda>n. i \<le> n \<and> n \<le> m) [i + 1..j] = filter (\<lambda>n. i + 1 \<le> n \<and> n \<le> m) [i + 1..j]"
      by (rule filter_cong) auto
    show ?thesis
    proof (cases "i \<le> m")
      case im: True
      then show ?thesis
        using True rest eq by (subst upto.simps, subst (2) upto.simps) simp
    next
      case im: False
      have "filter (\<lambda>n. i + 1 \<le> n \<and> n \<le> m) [i + 1..j] = []"
        using im by (auto simp: filter_empty_conv)
      then show ?thesis
        using True im eq by (subst upto.simps, subst (2) upto.simps) simp
    qed
  qed
qed

text \<open>The exponent that \<^const>\<open>round_double\<close> works with is the binary exponent of the
  number.\<close>

lemma pow2_nonneg: "0 \<le> e \<Longrightarrow> pow2 e = 2 ^ nat e"
  by (simp add: pow2_def)

lemma pow2_neg: "e \<le> 0 \<Longrightarrow> pow2 e = 1 / 2 ^ nat (- e)"
  by (auto simp: pow2_def)

lemma double_exponent_bounds:
  assumes "0 < x"
  shows "pow2 (double_exponent x) \<le> x \<and> x < pow2 (double_exponent x + 1)"
proof (cases "1 \<le> x")
  case True
  define n where "n = \<lfloor>x\<rfloor>"
  have n1: "1 \<le> n" using True by (simp add: n_def)
  then have npos: "0 < n" by simp
  from bitlen_bounds[OF npos]
  have lo: "2 ^ nat (bitlen n - 1) \<le> n" and hi: "n < 2 ^ nat (bitlen n)" by simp_all
  have bl: "1 \<le> bitlen n" using npos bitlen_eq_zero_iff[of n] bitlen_nonneg[of n] by linarith
  have e: "double_exponent x = bitlen n - 1" using True by (simp add: double_exponent_def n_def)
  have "real_of_int (2 ^ nat (bitlen n - 1)) \<le> real_of_int n" using lo by linarith
  also have "\<dots> \<le> x" by (simp add: n_def)
  finally have a: "pow2 (double_exponent x) \<le> x"
    unfolding e using bl by (simp add: pow2_nonneg)
  have "n + 1 \<le> 2 ^ nat (bitlen n)" using hi by linarith
  then have "real_of_int (n + 1) \<le> real_of_int (2 ^ nat (bitlen n))" by linarith
  moreover have "x < real_of_int (n + 1)" unfolding n_def by linarith
  ultimately have "x < 2 ^ nat (bitlen n)" by simp
  then have b: "x < pow2 (double_exponent x + 1)"
    unfolding e using bl by (simp add: pow2_nonneg)
  from a b show ?thesis by simp
next
  case False
  define y where "y = 1 / x"
  define m where "m = \<lceil>y\<rceil> - 1"
  have y1: "1 < y" using False assms by (simp add: y_def)
  have m1: "1 \<le> m" using y1 by (simp add: m_def)
  then have mpos: "0 < m" by simp
  have my: "real_of_int m < y" unfolding m_def by linarith
  have ym: "y \<le> real_of_int (m + 1)" unfolding m_def by simp
  from bitlen_bounds[OF mpos]
  have lo: "2 ^ nat (bitlen m - 1) \<le> m" and hi: "m < 2 ^ nat (bitlen m)" by simp_all
  have bl: "1 \<le> bitlen m" using mpos bitlen_eq_zero_iff[of m] bitlen_nonneg[of m] by linarith
  have e: "double_exponent x = - bitlen m" using False by (simp add: double_exponent_def m_def y_def)
  have "m + 1 \<le> 2 ^ nat (bitlen m)" using hi by linarith
  then have "real_of_int (m + 1) \<le> real_of_int (2 ^ nat (bitlen m))" by linarith
  with ym have yle: "y \<le> 2 ^ nat (bitlen m)" by simp
  have "1 / 2 ^ nat (bitlen m) \<le> 1 / y"
    using yle y1 by (intro divide_left_mono) auto
  then have a: "pow2 (double_exponent x) \<le> x"
    unfolding e using bl assms by (simp add: pow2_neg y_def)
  have "(2::real) ^ nat (bitlen m - 1) \<le> real_of_int m"
    using lo by (metis of_int_le_iff of_int_numeral of_int_power)
  with my have ylt: "2 ^ nat (bitlen m - 1) < y" by linarith
  have "1 / y < 1 / 2 ^ nat (bitlen m - 1)"
    using ylt y1 by (intro divide_strict_left_mono) auto
  then have b: "x < pow2 (double_exponent x + 1)"
    unfolding e using bl assms by (simp add: pow2_neg y_def)
  from a b show ?thesis by simp
qed

lemma int_wrap_id: "c_int x \<Longrightarrow> int_wrap x = x"
  by (simp add: int_wrap_def c_int_def)

lemma int_wrap_add_left: "int_wrap (int_wrap a + b) = int_wrap (a + b)"
proof -
  define w where "w = (a + 2 ^ 31) mod (2 ^ 32 :: int)"
  have iw: "int_wrap a = w - 2 ^ 31" by (simp add: int_wrap_def w_def)
  have "(w - 2 ^ 31 + b + 2 ^ 31) mod 2 ^ 32 = (w + b) mod 2 ^ 32" by simp
  also have "\<dots> = (a + 2 ^ 31 + b) mod 2 ^ 32"
    unfolding w_def by (simp only: mod_add_left_eq)
  also have "a + 2 ^ 31 + b = a + b + (2 ^ 31 :: int)" by linarith
  finally show ?thesis unfolding iw by (simp only: int_wrap_def)
qed

lemma int_wrap_idem: "int_wrap (int_wrap a) = int_wrap a"
  using int_wrap_add_left[of a 0] by simp

lemma int_wrap_diff_left: "int_wrap (int_wrap a - b) = int_wrap (a - b)"
  using int_wrap_add_left[of a "- b"] by simp

lemma int_wrap_c_int: "c_int (int_wrap x)"
  by (simp add: int_wrap_def c_int_def)

lemma export_setup_top:
  assumes "export_setup h opts scrdesc desc cursor_row cursor_column fp0 rows percent
             table_name0 cmd_CopyTopLines format0 = Inr (Some l)"
  shows "min_row l = int_wrap (first_data_row desc) \<and>
         max_row l = int_wrap (first_data_row desc + rows_after_percent desc rows percent - 1)"
  using assms unfolding export_setup_def
  by (auto simp: range_column_def range_line_def range_cross_def range_marked_def
                 range_selected_def range_top_bottom_def range_flags_def initial_locals_def
                 Let_def int_wrap_idem int_wrap_diff_left
           split: sum.splits if_splits)

lemma rows_selected_prefix:
  assumes "min_row l = first_data_row desc"
  shows "int (rows_selected l desc) =
           max 0 (min (max_row l) (last_data_row desc) - first_data_row desc + 1)"
proof -
  let ?a = "first_data_row desc" and ?b = "last_data_row desc"
  have "filter (\<lambda>n. \<not> row_out_of_range l n) [?a..?b] =
        filter (\<lambda>n. ?a \<le> n \<and> n \<le> max_row l) [?a..?b]"
    by (rule filter_cong) (auto simp: row_out_of_range_def assms)
  then have "rows_selected l desc =
               length (filter (\<lambda>n. ?a \<le> n \<and> n \<le> max_row l) [?a..?b])"
    by (simp only: rows_selected_def)
  also have "\<dots> = length [?a..min ?b (max_row l)]"
    by (simp only: filter_upto_le)
  finally have len: "rows_selected l desc = nat (min ?b (max_row l) - ?a + 1)"
    by (simp only: length_upto)
  show ?thesis unfolding len by (auto simp: min.commute)
qed

text \<open>Claim C9. For every call of \<^verbatim>\<open>export_data\<close> with the command \<^verbatim>\<open>cmd_CopyTopLines\<close> and a
  percentage that is not negative, the number of data rows that the computed row range
  lets through lies between 0 and the number of data rows, also when the percentage is
  above 100. The range that lines 751-774 compute starts at the first data row and ends
  at \<open>first_data_row + rows - 1\<close> in 32-bit arithmetic, \<^verbatim>\<open>rows\<close> being the value that line
  763 gives; the rows let through are the data rows up to that end, and when \<^verbatim>\<open>rows\<close> is
  not negative and the end does not overflow they are \<^verbatim>\<open>rows\<close> rows, cut at the number of
  data rows. Such a range is computed whenever \<^verbatim>\<open>rows\<close> is not negative either (and, in
  the SQL INSERT formats, the table name can be quoted). \<^verbatim>\<open>desc->first_data_row\<close> is a C
  \<^verbatim>\<open>int\<close>.\<close>

theorem top_percent_rows_selected:
  assumes "0 \<le> percent" and "c_int (first_data_row desc)"
  shows "(\<forall>l. export_setup h opts scrdesc desc cursor_row cursor_column fp0 rows percent
                table_name0 cmd_CopyTopLines format0 = Inr (Some l) \<longrightarrow>
              min_row l = first_data_row desc \<and>
              max_row l =
                int_wrap (first_data_row desc + rows_after_percent desc rows percent - 1) \<and>
              rows_selected l desc \<le> total_data_rows desc \<and>
              int (rows_selected l desc) =
                max 0 (min (max_row l) (last_data_row desc) - first_data_row desc + 1) \<and>
              (0 \<le> rows_after_percent desc rows percent \<and>
               c_int (first_data_row desc + rows_after_percent desc rows percent - 1) \<longrightarrow>
                 int (rows_selected l desc) =
                   min (rows_after_percent desc rows percent) (int (total_data_rows desc)))) \<and>
         (0 \<le> rows \<and>
          (INSERT_FORMAT_TYPE format0 \<longrightarrow>
             is_c_string table_name0 \<and>
             (opts_force8bit opts \<or> bytewise_allocator (h_smalloc2 h))) \<longrightarrow>
            (\<exists>l. export_setup h opts scrdesc desc cursor_row cursor_column fp0 rows percent
                    table_name0 cmd_CopyTopLines format0 = Inr (Some l)))"
proof -
  let ?r = "rows_after_percent desc rows percent"
  have A: "min_row l = first_data_row desc \<and>
           max_row l = int_wrap (first_data_row desc + ?r - 1) \<and>
           rows_selected l desc \<le> total_data_rows desc \<and>
           int (rows_selected l desc) =
             max 0 (min (max_row l) (last_data_row desc) - first_data_row desc + 1) \<and>
           (0 \<le> ?r \<and> c_int (first_data_row desc + ?r - 1) \<longrightarrow>
              int (rows_selected l desc) = min ?r (int (total_data_rows desc)))"
    if st: "export_setup h opts scrdesc desc cursor_row cursor_column fp0 rows percent
              table_name0 cmd_CopyTopLines format0 = Inr (Some l)" for l
  proof -
    from export_setup_top[OF st] int_wrap_id[OF assms(2)]
    have mn: "min_row l = first_data_row desc"
      and mx: "max_row l = int_wrap (first_data_row desc + ?r - 1)" by simp_all
    note cnt = rows_selected_prefix[OF mn]
    have le: "rows_selected l desc \<le> total_data_rows desc"
      using cnt unfolding total_data_rows_def by linarith
    have ex: "int (rows_selected l desc) = min ?r (int (total_data_rows desc))"
      if "0 \<le> ?r \<and> c_int (first_data_row desc + ?r - 1)"
      using cnt that unfolding mx total_data_rows_def by (simp add: int_wrap_id) linarith
    from mn mx le cnt ex show ?thesis by blast
  qed
  have B: "\<exists>l. export_setup h opts scrdesc desc cursor_row cursor_column fp0 rows percent
                  table_name0 cmd_CopyTopLines format0 = Inr (Some l)"
    if wf: "0 \<le> rows \<and>
          (INSERT_FORMAT_TYPE format0 \<longrightarrow>
             is_c_string table_name0 \<and>
             (opts_force8bit opts \<or> bytewise_allocator (h_smalloc2 h)))"
  proof -
    have lf: "local_format cmd_CopyTopLines format0 = format0"
      by (simp add: local_format_def)
    have "\<exists>tname. (if INSERT_FORMAT_TYPE (local_format cmd_CopyTopLines format0)
              then quote_table_name h opts table_name0 else Inr NullP) = Inr tname"
    proof (cases "INSERT_FORMAT_TYPE format0")
      case True
      with wf quote_table_name_total[of table_name0 opts h] show ?thesis
        unfolding lf by simp
    next
      case False
      then show ?thesis unfolding lf by simp
    qed
    then obtain tname where tn: "(if INSERT_FORMAT_TYPE (local_format cmd_CopyTopLines format0)
              then quote_table_name h opts table_name0 else Inr NullP) = Inr tname"
      by blast
    show ?thesis
      unfolding export_setup_def tn using wf assms
      by (simp add: range_column_def range_top_bottom_def Let_def)
  qed
  from A B show ?thesis by blast
qed

text \<open>Line 763 at some values: 58 percent of 50 rows are 28 rows, since the \<^verbatim>\<open>double\<close>
  nearest to 0.58 lies below it and the product is rounded to the \<^verbatim>\<open>double\<close> below 29; a
  product that does not fit into an \<^verbatim>\<open>int\<close> gives the least \<^verbatim>\<open>int\<close>; a percentage of 0
  leaves \<^verbatim>\<open>rows\<close> as it was given.\<close>

lemma percent_rounding_runs:
  "rows_after_percent fifty_rows 0 58 = 28 \<and>
   rows_after_percent fifty_rows 0 50 = 25 \<and>
   rows_after_percent demo_desc 0 250 = 5 \<and>
   rows_after_percent demo_desc 0 1000000000000 = - 2147483648 \<and>
   rows_after_percent demo_desc 7 0 = 7"
  by code_simp

theorem top_percent_rows_selected_witness:
  "(0::real) \<le> 58 \<and> c_int (first_data_row fifty_rows) \<and>
   total_data_rows fifty_rows = 50 \<and> rows_after_percent fifty_rows 0 58 = 28 \<and>
   (\<exists>l. export_setup plain_helpers demo_opts no_selection fifty_rows 0 0 [] 0 58 NullP
           cmd_CopyTopLines CLIPBOARD_FORMAT_CSV = Inr (Some l) \<and>
         min_row l = 2 \<and> max_row l = 29 \<and> rows_selected l fifty_rows = 28) \<and>
   (0::real) \<le> 250 \<and> c_int (first_data_row demo_desc) \<and>
   total_data_rows demo_desc = 2 \<and> rows_after_percent demo_desc 0 250 = 5 \<and>
   (\<exists>l. export_setup plain_helpers demo_opts no_selection demo_desc 0 0 [] 0 250 NullP
           cmd_CopyTopLines CLIPBOARD_FORMAT_CSV = Inr (Some l) \<and>
         min_row l = 2 \<and> max_row l = 6 \<and> rows_selected l demo_desc = 2)"
proof -
  have rq: "rows_after_percent fifty_rows 0 58 = 28" "rows_after_percent demo_desc 0 250 = 5"
    by code_simp+
  have ci: "c_int (first_data_row fifty_rows)" "c_int (first_data_row demo_desc)"
    by (simp_all add: c_int_def fifty_rows_def demo_desc_def)
  have tot: "total_data_rows fifty_rows = 50" "total_data_rows demo_desc = 2"
    by (simp_all add: total_data_rows_def fifty_rows_def demo_desc_def)
  have rows: "first_data_row fifty_rows = 2" "last_data_row fifty_rows = 51"
    "first_data_row demo_desc = 2" "last_data_row demo_desc = 3"
    by (simp_all add: fifty_rows_def demo_desc_def)
  have w: "int_wrap 29 = 29" "int_wrap 6 = 6" by (simp_all add: int_wrap_def)
  note T1 = top_percent_rows_selected[of 58 fifty_rows plain_helpers demo_opts no_selection
              0 0 "[]" 0 NullP CLIPBOARD_FORMAT_CSV]
  note T2 = top_percent_rows_selected[of 250 demo_desc plain_helpers demo_opts no_selection
              0 0 "[]" 0 NullP CLIPBOARD_FORMAT_CSV]
  from T1 ci(1) obtain l1 where l1: "export_setup plain_helpers demo_opts no_selection fifty_rows
      0 0 [] 0 58 NullP cmd_CopyTopLines CLIPBOARD_FORMAT_CSV = Inr (Some l1)"
    by (auto simp: INSERT_FORMAT_TYPE_def)
  from T2 ci(2) obtain l2 where l2: "export_setup plain_helpers demo_opts no_selection demo_desc
      0 0 [] 0 250 NullP cmd_CopyTopLines CLIPBOARD_FORMAT_CSV = Inr (Some l2)"
    by (auto simp: INSERT_FORMAT_TYPE_def)
  from T1 ci(1) l1 have p1: "min_row l1 = 2 \<and> max_row l1 = 29 \<and> rows_selected l1 fifty_rows = 28"
    by (simp add: rq rows tot w c_int_def)
  from T2 ci(2) l2 have p2: "min_row l2 = 2 \<and> max_row l2 = 6 \<and> rows_selected l2 demo_desc = 2"
    by (simp add: rq rows tot w c_int_def)
  from l1 p1 l2 p2 rq ci tot show ?thesis by auto
qed

end
